theory Spec2Isabelle
  imports Complex_Main "HOL-Library.Log_Nat" "HOL-Library.While_Combinator" "HOL-Library.Multiset"
begin

section \<open>The Number type of the language\<close>

text \<open>
  Every value the functions of \<^verbatim>\<open>index.ts\<close> compute with is a \<^verbatim>\<open>number\<close>: an IEEE 754
  binary64 value. A finite value is kept as the rational it denotes; the two zeros are
  \<open>Fin 0\<close> (\<open>+0\<close>) and \<open>NZero\<close> (\<open>-0\<close>). Every arithmetic operation computes the
  exact rational result and rounds it to the nearest binary64 value, ties to even.
\<close>

datatype number = NaN | PInf | NInf | NZero | Fin rat

definition pow2 :: "int \<Rightarrow> rat" where
  "pow2 e = (if 0 \<le> e then 2 ^ nat e else 1 / 2 ^ nat (- e))"

text \<open>\<open>expo q\<close> is the binary exponent of a positive rational: \<open>2^e \<le> q < 2^(e+1)\<close>.\<close>

definition expo :: "rat \<Rightarrow> int" where
  "expo q = (let (a, b) = quotient_of q; d = bitlen a - bitlen b
             in if pow2 d \<le> q then d else d - 1)"

definition round_even :: "rat \<Rightarrow> int" where
  "round_even x = (let f = \<lfloor>x\<rfloor>; d = x - of_int f
                   in if d < 1 / 2 then f
                      else if 1 / 2 < d then f + 1
                      else if even f then f else f + 1)"

text \<open>
  Rounding to binary64: 53 significant bits, least exponent \<open>-1022\<close> (below it the
  spacing stays \<open>2^-1074\<close>: the subnormal range), overflow to an infinity from \<open>2^1024\<close>.
  A result that rounds to zero keeps the sign of the exact value.
\<close>

definition round64 :: "rat \<Rightarrow> number" where
  "round64 q =
     (if q = 0 then Fin 0
      else let ulp = pow2 (max (expo \<bar>q\<bar>) (- 1022) - 52);
               m = of_int (round_even (\<bar>q\<bar> / ulp)) * ulp
           in if pow2 1024 \<le> m then (if q < 0 then NInf else PInf)
              else if m = 0 then (if q < 0 then NZero else Fin 0)
              else Fin (if q < 0 then - m else m))"

text \<open>The values of the type: a finite one is a rational that rounding leaves alone.\<close>

definition is_double :: "number \<Rightarrow> bool" where
  "is_double x = (case x of Fin q \<Rightarrow> round64 q = Fin q | _ \<Rightarrow> True)"

definition is_NaN :: "number \<Rightarrow> bool" where
  "is_NaN x = (case x of NaN \<Rightarrow> True | _ \<Rightarrow> False)"

definition is_inf :: "number \<Rightarrow> bool" where
  "is_inf x = (case x of PInf \<Rightarrow> True | NInf \<Rightarrow> True | _ \<Rightarrow> False)"

definition is_zero :: "number \<Rightarrow> bool" where
  "is_zero x = (case x of NZero \<Rightarrow> True | Fin q \<Rightarrow> q = 0 | _ \<Rightarrow> False)"

text \<open>The sign bit.\<close>

definition neg_sign :: "number \<Rightarrow> bool" where
  "neg_sign x = (case x of NInf \<Rightarrow> True | NZero \<Rightarrow> True | Fin q \<Rightarrow> q < 0 | _ \<Rightarrow> False)"

text \<open>The mathematical value of a finite number (\<open>0\<close> for both zeros).\<close>

definition val :: "number \<Rightarrow> rat" where
  "val x = (case x of Fin q \<Rightarrow> q | _ \<Rightarrow> 0)"

definition inf_of :: "bool \<Rightarrow> number" where
  "inf_of s = (if s then NInf else PInf)"

definition zero_of :: "bool \<Rightarrow> number" where
  "zero_of s = (if s then NZero else Fin 0)"

text \<open>Unary minus flips the sign bit.\<close>

definition fneg :: "number \<Rightarrow> number" where
  "fneg x = (case x of NaN \<Rightarrow> NaN | PInf \<Rightarrow> NInf | NInf \<Rightarrow> PInf | NZero \<Rightarrow> Fin 0
             | Fin q \<Rightarrow> if q = 0 then NZero else Fin (- q))"

text \<open>\<^verbatim>\<open>x + y\<close>: opposite infinities give NaN; \<open>-0 + -0 = -0\<close>; an exact zero sum is \<open>+0\<close>.\<close>

definition fadd :: "number \<Rightarrow> number \<Rightarrow> number" where
  "fadd x y =
     (if is_NaN x \<or> is_NaN y then NaN
      else if is_inf x then (if is_inf y \<and> x \<noteq> y then NaN else x)
      else if is_inf y then y
      else if x = NZero then y
      else if y = NZero then x
      else round64 (val x + val y))"

text \<open>\<^verbatim>\<open>x - y\<close> is \<^verbatim>\<open>x + (-y)\<close>.\<close>

definition fsub :: "number \<Rightarrow> number \<Rightarrow> number" where
  "fsub x y = fadd x (fneg y)"

text \<open>\<^verbatim>\<open>x * y\<close>: zero times infinity is NaN; the sign is the exclusive or of the signs.\<close>

definition fmul :: "number \<Rightarrow> number \<Rightarrow> number" where
  "fmul x y =
     (if is_NaN x \<or> is_NaN y then NaN
      else if (is_inf x \<and> is_zero y) \<or> (is_zero x \<and> is_inf y) then NaN
      else if is_inf x \<or> is_inf y then inf_of (neg_sign x \<noteq> neg_sign y)
      else if is_zero x \<or> is_zero y then zero_of (neg_sign x \<noteq> neg_sign y)
      else round64 (val x * val y))"

text \<open>
  \<^verbatim>\<open>x / y\<close>: \<open>0/0\<close> and \<open>\<infinity>/\<infinity>\<close> are NaN; a nonzero value divided by a zero is an
  infinity. No division raises.
\<close>

definition fdiv :: "number \<Rightarrow> number \<Rightarrow> number" where
  "fdiv x y =
     (if is_NaN x \<or> is_NaN y then NaN
      else if (is_inf x \<and> is_inf y) \<or> (is_zero x \<and> is_zero y) then NaN
      else if is_inf x \<or> is_zero y then inf_of (neg_sign x \<noteq> neg_sign y)
      else if is_inf y \<or> is_zero x then zero_of (neg_sign x \<noteq> neg_sign y)
      else round64 (val x / val y))"

text \<open>\<^verbatim>\<open>x < y\<close>: false when either side is NaN; the two zeros are equal.\<close>

definition flt :: "number \<Rightarrow> number \<Rightarrow> bool" where
  "flt x y =
     (if is_NaN x \<or> is_NaN y then False
      else if x = PInf \<or> y = NInf then False
      else if x = NInf \<or> y = PInf then True
      else val x < val y)"

text \<open>A numeric literal of the source denotes the nearest binary64 value.\<close>

definition lit :: "rat \<Rightarrow> number" where
  "lit q = round64 q"

section \<open>Number.prototype.toFixed and Number::toString\<close>

function digits :: "int \<Rightarrow> string" where
  "digits n = (if n < 10 then [char_of (48 + n)]
               else digits (n div 10) @ [char_of (48 + n mod 10)])"
  by pat_completeness auto
termination
  by (relation "measure nat") auto

declare digits.simps [simp del]

text \<open>The number of decimal digits of the integer part of \<open>a \<ge> 1\<close>.\<close>

definition dec_len :: "rat \<Rightarrow> nat" where
  "dec_len a = length (digits \<lfloor>a\<rfloor>)"

text \<open>
  Number::toString for a finite value \<open>a \<ge> 10^21\<close> looks for integers \<open>n\<close>, \<open>k\<close> and
  \<open>s\<close> with \<open>10^(k-1) \<le> s < 10^k\<close> such that \<open>s * 10^(n-k)\<close> is the number \<open>a\<close> again,
  with \<open>k\<close> as small as possible, and prints the digits of \<open>s\<close> in exponent notation
  with the exponent \<open>n - 1\<close>. With \<open>N\<close> the number of digits of the integer \<open>a\<close>, the
  candidates are the \<open>k\<close>-digit integers next to \<open>a / 10^(N-k)\<close> (with \<open>n = N\<close>, the nearer
  one first) and, when \<open>a\<close> lies just below a power of ten, that power \<open>10^N\<close> itself
  (\<open>s = 1\<close>, \<open>k = 1\<close>, \<open>n = N + 1\<close>); seventeen digits always suffice.
\<close>

definition cand_ok :: "rat \<Rightarrow> nat \<Rightarrow> nat \<Rightarrow> int \<Rightarrow> bool" where
  "cand_ok a n k s = (10 ^ (k - 1) \<le> s \<and> s < 10 ^ k \<and> round64 (of_int s * 10 ^ (n - k)) = Fin a)"

fun shortest :: "rat \<Rightarrow> nat \<Rightarrow> nat \<Rightarrow> nat \<Rightarrow> int" where
  "shortest a n k 0 = round_even (a / 10 ^ (n - k))"
| "shortest a n k (Suc fuel) =
     (let x = a / 10 ^ (n - k); lo = \<lfloor>x\<rfloor>; hi = lo + 1;
          c1 = (if x - of_int lo \<le> of_int hi - x then lo else hi);
          c2 = (if x - of_int lo \<le> of_int hi - x then hi else lo)
      in if cand_ok a n k c1 then c1
         else if cand_ok a n k c2 then c2
         else shortest a n (Suc k) fuel)"

definition exp_string :: "rat \<Rightarrow> string" where
  "exp_string a =
     (let n = dec_len a
      in if round64 (10 ^ n) = Fin a then ''1e+'' @ digits (int n)
         else let ds = digits (shortest a n 1 16)
              in (if length ds = 1 then ds else hd ds # CHR ''.'' # tl ds)
                 @ ''e+'' @ digits (int n - 1))"

text \<open>
  The digits of \<^verbatim>\<open>toFixed(2)\<close> for the integer \<open>n\<close> of hundredths: at least three
  digits, with a point before the last two.
\<close>

definition fixed_string :: "int \<Rightarrow> string" where
  "fixed_string n =
     (let m = digits n; m' = replicate (3 - length m) CHR ''0'' @ m
      in take (length m' - 2) m' @ ''.'' @ drop (length m' - 2) m')"

text \<open>
  \<^verbatim>\<open>x.toFixed(2)\<close>: a value that is not finite prints as its name; the sign is printed for a
  value below zero (not for \<open>-0\<close>); from \<open>10^21\<close> the result is Number::toString; otherwise
  \<open>n\<close> is the integer with \<open>n / 100\<close> nearest to the value (the larger of two), printed
  with at least three digits and a point before the last two.
\<close>

definition toFixed2 :: "number \<Rightarrow> string" where
  "toFixed2 x =
     (case x of
        NaN \<Rightarrow> ''NaN''
      | PInf \<Rightarrow> ''Infinity''
      | NInf \<Rightarrow> ''-Infinity''
      | NZero \<Rightarrow> ''0.00''
      | Fin q \<Rightarrow>
          (let s = (if q < 0 then ''-'' else []); a = \<bar>q\<bar>
           in if 10 ^ 21 \<le> a then s @ exp_string a
              else s @ fixed_string \<lfloor>a * 100 + 1 / 2\<rfloor>))"

section \<open>Debt-to-income ratio and safe withdrawal rate\<close>

definition calculateDTI :: "number \<Rightarrow> number \<Rightarrow> string" where
  "calculateDTI totalMonthlyDebtPayments totalMonthlyIncome =
     toFixed2 (fmul (fdiv totalMonthlyDebtPayments totalMonthlyIncome) (lit 100))"

definition safeWithdrawalRate :: "number \<Rightarrow> number \<Rightarrow> number \<Rightarrow> string" where
  "safeWithdrawalRate retirementSavings retirementYears annualExpenses =
     (let withdrawalRate = fdiv annualExpenses retirementSavings;
          safeWithdrawalRate = fmul withdrawalRate (lit 100)
      in toFixed2 safeWithdrawalRate)"

section \<open>Math.pow\<close>

text \<open>
  \<^verbatim>\<open>Math.pow\<close> is a builtin of the platform. The language standard fixes its result
  where an operand is NaN, a zero or an infinity, where the base has magnitude one
  and the exponent is infinite, and for a negative base with a fractional exponent;
  everywhere else the result is an approximation that the implementation chooses.
  That choice is the parameter \<open>approx\<close> of every function that calls \<^verbatim>\<open>Math.pow\<close>.
\<close>

definition is_integral :: "number \<Rightarrow> bool" where
  "is_integral x = (case x of Fin q \<Rightarrow> of_int \<lfloor>q\<rfloor> = q | NZero \<Rightarrow> True | _ \<Rightarrow> False)"

definition is_odd_integral :: "number \<Rightarrow> bool" where
  "is_odd_integral x = (case x of Fin q \<Rightarrow> of_int \<lfloor>q\<rfloor> = q \<and> odd \<lfloor>q\<rfloor> | _ \<Rightarrow> False)"

definition Math_pow :: "(number \<Rightarrow> number \<Rightarrow> number) \<Rightarrow> number \<Rightarrow> number \<Rightarrow> number" where
  "Math_pow approx base exponent =
     (if is_NaN exponent then NaN
      else if is_zero exponent then Fin 1
      else if is_NaN base then NaN
      else if base = PInf then (if flt (Fin 0) exponent then PInf else Fin 0)
      else if base = NInf then
        (if flt (Fin 0) exponent then (if is_odd_integral exponent then NInf else PInf)
         else (if is_odd_integral exponent then NZero else Fin 0))
      else if base = Fin 0 then (if flt (Fin 0) exponent then Fin 0 else PInf)
      else if base = NZero then
        (if flt (Fin 0) exponent then (if is_odd_integral exponent then NZero else Fin 0)
         else (if is_odd_integral exponent then NInf else PInf))
      else if exponent = PInf then
        (if 1 < \<bar>val base\<bar> then PInf else if \<bar>val base\<bar> = 1 then NaN else Fin 0)
      else if exponent = NInf then
        (if 1 < \<bar>val base\<bar> then Fin 0 else if \<bar>val base\<bar> = 1 then NaN else PInf)
      else if flt base (Fin 0) \<and> \<not> is_integral exponent then NaN
      else approx base exponent)"

section \<open>Debt ordering\<close>

record debt =
  name :: string
  balance :: number

record debt_rate = debt +
  interestRate :: number

text \<open>
  \<^verbatim>\<open>Array.prototype.sort(comparefn)\<close> is a builtin of the platform: a stable sort that
  moves \<open>x\<close> behind \<open>y\<close> only when \<^verbatim>\<open>comparefn(x, y) > 0\<close>, a NaN from the comparator
  counting as \<open>+0\<close>. The array is sorted in place and returned; the model returns the
  new contents. Insertion from the right end keeps equal elements in input order.
\<close>

definition SortCompare :: "('a \<Rightarrow> 'a \<Rightarrow> number) \<Rightarrow> 'a \<Rightarrow> 'a \<Rightarrow> number" where
  "SortCompare comparefn x y = (let v = comparefn x y in if is_NaN v then Fin 0 else v)"

fun sort_insert :: "('a \<Rightarrow> 'a \<Rightarrow> number) \<Rightarrow> 'a \<Rightarrow> 'a list \<Rightarrow> 'a list" where
  "sort_insert comparefn x [] = [x]"
| "sort_insert comparefn x (y # ys) =
     (if flt (Fin 0) (SortCompare comparefn x y) then y # sort_insert comparefn x ys
      else x # y # ys)"

fun Array_sort :: "('a \<Rightarrow> 'a \<Rightarrow> number) \<Rightarrow> 'a list \<Rightarrow> 'a list" where
  "Array_sort comparefn [] = []"
| "Array_sort comparefn (x # xs) = sort_insert comparefn x (Array_sort comparefn xs)"

definition debtSnowball :: "'a debt_scheme list \<Rightarrow> 'a debt_scheme list" where
  "debtSnowball debts = Array_sort (\<lambda>a b. fsub (balance a) (balance b)) debts"

definition debtAvalanche :: "'a debt_rate_scheme list \<Rightarrow> 'a debt_rate_scheme list" where
  "debtAvalanche debts = Array_sort (\<lambda>a b. fsub (interestRate b) (interestRate a)) debts"

section \<open>Loan amortization\<close>

definition calculateEMI ::
  "(number \<Rightarrow> number \<Rightarrow> number) \<Rightarrow> number \<Rightarrow> number \<Rightarrow> number \<Rightarrow> string" where
  "calculateEMI approx principal' annualInterestRate tenureInYears =
     (let monthlyInterestRate = fdiv (fdiv annualInterestRate (lit 12)) (lit 100);
          totalMonths = fmul tenureInYears (lit 12);
          emi = fdiv (fmul (fmul principal' monthlyInterestRate)
                           (Math_pow approx (fadd (lit 1) monthlyInterestRate) totalMonths))
                     (fsub (Math_pow approx (fadd (lit 1) monthlyInterestRate) totalMonths) (lit 1))
      in toFixed2 emi)"

section \<open>Lump sum, future value and present value\<close>

text \<open>
  A parameter with a default (\<^verbatim>\<open>inflationRate: number = 0.06\<close>) is an optional argument:
  \<open>None\<close> is the call that leaves it out.
\<close>

definition default_inflationRate :: "number option \<Rightarrow> number" where
  "default_inflationRate inflationRate = (case inflationRate of None \<Rightarrow> lit (6 / 100) | Some i \<Rightarrow> i)"

definition lumpSumReturns ::
  "(number \<Rightarrow> number \<Rightarrow> number) \<Rightarrow> number \<Rightarrow> number \<Rightarrow> number \<Rightarrow> string" where
  "lumpSumReturns approx principalAmount durationInYears expectedRoi =
     (let totalAmount = fmul principalAmount
                          (Math_pow approx (fadd (lit 1) expectedRoi) durationInYears)
      in toFixed2 totalAmount)"

definition lumpSumReturnsWithInflation ::
  "(number \<Rightarrow> number \<Rightarrow> number) \<Rightarrow> number \<Rightarrow> number \<Rightarrow> number \<Rightarrow> number option \<Rightarrow> string" where
  "lumpSumReturnsWithInflation approx principalAmount durationInYears expectedRoi inflationRate =
     (let totalAmount = fmul principalAmount
                          (Math_pow approx
                             (fsub (fadd (lit 1) expectedRoi) (default_inflationRate inflationRate))
                             durationInYears)
      in toFixed2 totalAmount)"

definition futureValueWithoutInflation ::
  "(number \<Rightarrow> number \<Rightarrow> number) \<Rightarrow> number \<Rightarrow> number \<Rightarrow> number \<Rightarrow> string" where
  "futureValueWithoutInflation approx principalAmount durationInYears expectedRoi =
     (let totalAmount = fmul principalAmount
                          (Math_pow approx (fadd (lit 1) expectedRoi) durationInYears)
      in toFixed2 totalAmount)"

definition futureValueWithInflation ::
  "(number \<Rightarrow> number \<Rightarrow> number) \<Rightarrow> number \<Rightarrow> number \<Rightarrow> number \<Rightarrow> number option \<Rightarrow> string" where
  "futureValueWithInflation approx principalAmount durationInYears expectedRoi inflationRate =
     (let totalAmount = fmul principalAmount
                          (Math_pow approx
                             (fsub (fadd (lit 1) expectedRoi) (default_inflationRate inflationRate))
                             durationInYears)
      in toFixed2 totalAmount)"

definition presentValueWithoutInflation ::
  "(number \<Rightarrow> number \<Rightarrow> number) \<Rightarrow> number \<Rightarrow> number \<Rightarrow> number \<Rightarrow> string" where
  "presentValueWithoutInflation approx futureAmount durationInYears expectedRoi =
     (let presentValue = fdiv futureAmount
                           (Math_pow approx (fadd (lit 1) expectedRoi) durationInYears)
      in toFixed2 presentValue)"

definition presentValueWithInflation ::
  "(number \<Rightarrow> number \<Rightarrow> number) \<Rightarrow> number \<Rightarrow> number \<Rightarrow> number \<Rightarrow> number option \<Rightarrow> string" where
  "presentValueWithInflation approx futureAmount durationInYears expectedRoi inflationRate =
     (let presentValue = fdiv futureAmount
                           (Math_pow approx
                              (fsub (fadd (lit 1) expectedRoi) (default_inflationRate inflationRate))
                              durationInYears)
      in toFixed2 presentValue)"

section \<open>Systematic investment plan\<close>

text \<open>
  The loop \<^verbatim>\<open>for (let i = 0; i < months; i++) { ... }\<close> runs on the pair of the counter
  and the running total, both numbers. It need not end (a counter that has reached
  \<open>2^53\<close> is not changed by \<^verbatim>\<open>i++\<close>), so the result is optional: \<open>None\<close> is the call
  that never returns.
\<close>

definition sipReturns :: "number \<Rightarrow> number \<Rightarrow> number \<Rightarrow> string option" where
  "sipReturns monthlyPayment months expectedRoi =
     map_option (\<lambda>(i, totalAmount). toFixed2 totalAmount)
       (while_option (\<lambda>(i, totalAmount). flt i months)
          (\<lambda>(i, totalAmount).
             (fadd i (lit 1),
              fmul (fadd totalAmount monthlyPayment) (fadd (lit 1) (fdiv expectedRoi (lit 12)))))
          (lit 0, lit 0))"

definition sipReturnsWithInflation ::
  "number \<Rightarrow> number \<Rightarrow> number \<Rightarrow> number option \<Rightarrow> string option" where
  "sipReturnsWithInflation monthlyPayment months expectedRoi inflationRate =
     map_option (\<lambda>(i, totalAmount). toFixed2 totalAmount)
       (while_option (\<lambda>(i, totalAmount). flt i months)
          (\<lambda>(i, totalAmount).
             (fadd i (lit 1),
              fmul (fadd totalAmount monthlyPayment)
                   (fadd (lit 1)
                      (fdiv (fsub expectedRoi (default_inflationRate inflationRate)) (lit 12)))))
          (lit 0, lit 0))"

section \<open>Retirement planning\<close>

definition retirementSavingsGoal ::
  "(number \<Rightarrow> number \<Rightarrow> number) \<Rightarrow> number \<Rightarrow> number \<Rightarrow> number \<Rightarrow> number \<Rightarrow> string" where
  "retirementSavingsGoal approx monthlyExpenses yearsUntilRetirement annualReturnRate currentSavings =
     (let months = fmul yearsUntilRetirement (lit 12);
          monthlyReturnRate = fdiv (fdiv annualReturnRate (lit 12)) (lit 100);
          futureValue =
            fmul (fmul monthlyExpenses
                       (fdiv (fsub (Math_pow approx (fadd (lit 1) monthlyReturnRate) months) (lit 1))
                             monthlyReturnRate))
                 (fadd (lit 1) monthlyReturnRate);
          additionalSavingsNeeded = fsub futureValue currentSavings
      in toFixed2 additionalSavingsNeeded)"

section \<open>StringToNumber and the round trip\<close>

text \<open>
  Where a string is used as a number it is converted by StringToNumber. The model
  covers what \<^verbatim>\<open>toFixed\<close> can produce: \<open>NaN\<close>, and an optional sign followed by
  \<open>Infinity\<close> or by a decimal literal (digits, an optional fraction, an optional
  exponent). A decimal literal denotes the nearest number; one of more than 20
  significant digits is left to the implementation by the standard, and a string with
  any other character (blanks, radix prefixes) is not modelled: both are \<open>None\<close>.
\<close>

definition is_digit :: "char \<Rightarrow> bool" where
  "is_digit c = (48 \<le> (of_char c :: int) \<and> (of_char c :: int) \<le> 57)"

definition digits_val :: "string \<Rightarrow> int" where
  "digits_val ds = foldl (\<lambda>a c. 10 * a + (of_char c - 48)) 0 ds"

definition split_sign :: "string \<Rightarrow> bool \<times> string" where
  "split_sign s = (case s of [] \<Rightarrow> (False, [])
                   | c # cs \<Rightarrow> if c = CHR ''-'' then (True, cs)
                              else if c = CHR ''+'' then (False, cs) else (False, s))"

definition is_exp_mark :: "char \<Rightarrow> bool" where
  "is_exp_mark c = (c = CHR ''e'' \<or> c = CHR ''E'')"

definition parse_exponent :: "string \<Rightarrow> int option" where
  "parse_exponent rest =
     (if rest = [] then Some 0
      else let (xneg, xd) = split_sign (tl rest)
           in if xd \<noteq> [] \<and> list_all is_digit xd
              then Some (if xneg then - digits_val xd else digits_val xd) else None)"

definition parse_mantissa :: "string \<Rightarrow> (string \<times> nat) option" where
  "parse_mantissa m =
     (let ip = takeWhile (\<lambda>c. c \<noteq> CHR ''.'') m;
          fr = dropWhile (\<lambda>c. c \<noteq> CHR ''.'') m;
          fp = (if fr = [] then [] else tl fr)
      in if list_all is_digit ip \<and> list_all is_digit fp \<and> (ip \<noteq> [] \<or> fp \<noteq> [])
         then Some (ip @ fp, length fp) else None)"

definition significant :: "string \<Rightarrow> nat" where
  "significant ds =
     length (dropWhile (\<lambda>c. c = CHR ''0'') (rev (dropWhile (\<lambda>c. c = CHR ''0'') ds)))"

definition power10 :: "int \<Rightarrow> rat" where
  "power10 e = (if 0 \<le> e then 10 ^ nat e else 1 / 10 ^ nat (- e))"

definition in_alphabet :: "char \<Rightarrow> bool" where
  "in_alphabet c = (is_digit c \<or> is_exp_mark c \<or> c = CHR ''.'' \<or> c = CHR ''+'' \<or> c = CHR ''-'')"

definition StringToNumber :: "string \<Rightarrow> number option" where
  "StringToNumber s =
     (if s = ''NaN'' then Some NaN
      else let (neg, body) = split_sign s
           in if body = ''Infinity'' then Some (inf_of neg)
              else if \<not> list_all in_alphabet s then None
              else if s = [] then Some (Fin 0)
              else case (parse_mantissa (takeWhile (\<lambda>c. \<not> is_exp_mark c) body),
                         parse_exponent (dropWhile (\<lambda>c. \<not> is_exp_mark c) body)) of
                     (Some (ds, f), Some e) \<Rightarrow>
                        if 20 < significant ds then None
                        else if digits_val ds = 0 then Some (zero_of neg)
                        else Some (round64 ((if neg then - 1 else 1) * of_int (digits_val ds)
                                              * power10 (e - int f)))
                   | _ \<Rightarrow> Some NaN)"

text \<open>
  The composition of the claim: the string that \<^verbatim>\<open>futureValueWithoutInflation\<close> returns,
  converted to a number, is the amount passed to \<^verbatim>\<open>presentValueWithoutInflation\<close>.
\<close>

definition presentValue_of_futureValue ::
  "(number \<Rightarrow> number \<Rightarrow> number) \<Rightarrow> number \<Rightarrow> number \<Rightarrow> number \<Rightarrow> string option" where
  "presentValue_of_futureValue approx p y r =
     map_option (\<lambda>futureAmount. presentValueWithoutInflation approx futureAmount y r)
       (StringToNumber (futureValueWithoutInflation approx p y r))"

definition finite_number :: "number \<Rightarrow> bool" where
  "finite_number x = (\<not> is_NaN x \<and> \<not> is_inf x)"

section \<open>Comparison of numbers\<close>

text \<open>\<^verbatim>\<open>x <= y\<close> and \<^verbatim>\<open>x == y\<close> on numbers: false when either side is NaN.\<close>

definition fle :: "number \<Rightarrow> number \<Rightarrow> bool" where
  "fle x y = (\<not> is_NaN x \<and> \<not> is_NaN y \<and> \<not> flt y x)"

definition feq :: "number \<Rightarrow> number \<Rightarrow> bool" where
  "feq x y = (fle x y \<and> fle y x)"

text \<open>
  A comparator agrees with a key on a set when it is positive exactly for a first
  argument with the greater key, and no key is NaN.
\<close>

definition agrees :: "('a \<Rightarrow> 'a \<Rightarrow> number) \<Rightarrow> ('a \<Rightarrow> number) \<Rightarrow> 'a set \<Rightarrow> bool" where
  "agrees cmp key S \<longleftrightarrow>
     (\<forall>a \<in> S. \<not> is_NaN (key a)) \<and>
     (\<forall>a \<in> S. \<forall>b \<in> S. flt (Fin 0) (SortCompare cmp a b) \<longleftrightarrow> flt (key b) (key a))"

section \<open>The formulas of the specification\<close>

text \<open>
  The specification states its formulas over the real numbers, with a real power. They
  are written down here as the specification has them, to be compared with what the
  code computes in binary64 arithmetic. \<open>real_val\<close> is the real value of a finite number;
  \<open>approx_rel e x X\<close> says that \<open>x\<close> is \<open>X\<close> up to the relative error \<open>e\<close>;
  \<open>in_range k x\<close> bounds a magnitude by \<open>2^-k\<close> and \<open>2^k\<close>; \<open>eps64\<close> is the relative error
  of one rounding (\<open>2^-53\<close>) and \<open>tiny64\<close> its absolute error in the subnormal range
  (\<open>2^-1075\<close>).
\<close>

definition real_val :: "number \<Rightarrow> real" where
  "real_val x = real_of_rat (val x)"

definition approx_rel :: "real \<Rightarrow> real \<Rightarrow> real \<Rightarrow> bool" where
  "approx_rel e x X \<longleftrightarrow> \<bar>x - X\<bar> \<le> e * \<bar>X\<bar>"

definition in_range :: "nat \<Rightarrow> real \<Rightarrow> bool" where
  "in_range k x \<longleftrightarrow> 1 / 2 ^ k \<le> \<bar>x\<bar> \<and> \<bar>x\<bar> \<le> 2 ^ k"

definition eps64 :: real where
  "eps64 = 1 / 2 ^ 53"

definition tiny64 :: real where
  "tiny64 = 1 / 2 ^ 1075"

definition compound_formula :: "real \<Rightarrow> real \<Rightarrow> real \<Rightarrow> real" where
  "compound_formula amount rate years = amount * (1 + rate) powr years"

definition emi_formula :: "real \<Rightarrow> real \<Rightarrow> real \<Rightarrow> real" where
  "emi_formula P r n = P * r * (1 + r) powr n / ((1 + r) powr n - 1)"

definition annuity_due_formula :: "real \<Rightarrow> real \<Rightarrow> real \<Rightarrow> real" where
  "annuity_due_formula pmt r n = pmt * ((1 + r) powr n - 1) / r * (1 + r)"

section \<open>Inputs of the repository's tests and a reference power\<close>

text \<open>The lists of \<^verbatim>\<open>financialUtils.test.ts\<close>.\<close>

definition test_debts :: "debt list" where
  "test_debts =
     [\<lparr>name = ''Credit Card A'', balance = lit 5000\<rparr>,
      \<lparr>name = ''Credit Card B'', balance = lit 2500\<rparr>,
      \<lparr>name = ''Personal Loan'', balance = lit 10000\<rparr>]"

definition test_rates :: "debt_rate list" where
  "test_rates =
     [\<lparr>name = ''Credit Card A'', balance = lit 5000, interestRate = lit (18 / 100)\<rparr>,
      \<lparr>name = ''Credit Card B'', balance = lit 2500, interestRate = lit (12 / 100)\<rparr>,
      \<lparr>name = ''Personal Loan'', balance = lit 10000, interestRate = lit (6 / 100)\<rparr>]"

text \<open>
  One admissible choice of the platform's approximation, for concrete calls: the
  correctly rounded power when the exponent is an integer. For a fractional exponent
  (where the power is not rational in general) it is left at NaN and never used.
\<close>

definition pow_integral :: "number \<Rightarrow> number \<Rightarrow> number" where
  "pow_integral b e =
     (if is_integral e
      then (if 0 \<le> val e then round64 (val b ^ nat \<lfloor>val e\<rfloor>)
            else round64 (1 / val b ^ nat \<lfloor>- val e\<rfloor>))
      else NaN)"

section \<open>Rounding: exponent, nearest value, exact cases\<close>

lemma pow2_powi: "pow2 e = 2 powi e"
  by (simp add: pow2_def power_int_def inverse_eq_divide power_one_over)

lemma pow2_pos: "0 < pow2 e"
  by (simp add: pow2_powi)

lemma pow2_add: "pow2 (a + b) = pow2 a * pow2 b"
  by (simp add: pow2_powi power_int_add)

lemma pow2_diff: "pow2 (a - b) = pow2 a / pow2 b"
  by (simp add: pow2_powi power_int_diff)

lemma pow2_mono: "a \<le> b \<Longrightarrow> pow2 a \<le> pow2 b"
  by (simp add: pow2_powi power_int_increasing)

lemma pow2_strict_mono: "a < b \<Longrightarrow> pow2 a < pow2 b"
  by (simp add: pow2_powi power_int_strict_increasing)

lemma pow2_nat: "pow2 (int n) = 2 ^ n"
  by (simp add: pow2_def)

lemma bitlen_pow2_bounds:
  assumes "0 < a"
  shows "pow2 (bitlen a - 1) \<le> of_int a" and "of_int a < pow2 (bitlen a)"
proof -
  have ge1: "1 \<le> bitlen a" using assms bitlen_eq_zero_iff[of a] bitlen_nonneg[of a] by linarith
  have b: "2 ^ nat (bitlen a - 1) \<le> a" "a < 2 ^ nat (bitlen a)"
    using bitlen_bounds[OF assms] by auto
  have "pow2 (bitlen a - 1) = 2 ^ nat (bitlen a - 1)" using ge1 by (simp add: pow2_def)
  also have "\<dots> = of_int (2 ^ nat (bitlen a - 1))" by simp
  also have "\<dots> \<le> of_int a" using b(1) of_int_le_iff by blast
  finally show "pow2 (bitlen a - 1) \<le> of_int a" .
  have "(of_int a :: rat) < of_int (2 ^ nat (bitlen a))" using b(2) of_int_less_iff by blast
  also have "\<dots> = pow2 (bitlen a)" using ge1 by (simp add: pow2_def)
  finally show "of_int a < pow2 (bitlen a)" .
qed

lemma expo_bounds:
  assumes "0 < q"
  shows "pow2 (expo q) \<le> q" and "q < pow2 (expo q + 1)"
proof -
  obtain a b where ab: "quotient_of q = (a, b)" by (cases "quotient_of q")
  have b: "0 < b" using ab quotient_of_denom_pos by blast
  have q: "q = of_int a / of_int b" using ab quotient_of_div by blast
  have a: "0 < a" using assms b q by (simp add: zero_less_divide_iff)
  define d where "d = bitlen a - bitlen b"
  have e: "expo q = (if pow2 d \<le> q then d else d - 1)"
    by (simp add: expo_def ab d_def Let_def)
  have lo: "pow2 (d - 1) \<le> q"
  proof -
    have "pow2 (d - 1) = pow2 (bitlen a - 1) / pow2 (bitlen b)"
      by (simp add: d_def pow2_diff[symmetric] algebra_simps)
    also have "\<dots> \<le> of_int a / of_int b"
      using bitlen_pow2_bounds[OF a] bitlen_pow2_bounds[OF b] b pow2_pos[of "bitlen a - 1"]
      by (intro frac_le) auto
    finally show ?thesis using q by simp
  qed
  have hi: "q < pow2 (d + 1)"
  proof -
    have "of_int a / of_int b < pow2 (bitlen a) / pow2 (bitlen b - 1)"
      using bitlen_pow2_bounds[OF a] bitlen_pow2_bounds[OF b] a pow2_pos[of "bitlen b - 1"]
      by (intro frac_less) auto
    also have "\<dots> = pow2 (d + 1)"
      by (simp add: d_def pow2_diff[symmetric] algebra_simps)
    finally show ?thesis using q by simp
  qed
  show "pow2 (expo q) \<le> q" using lo e by auto
  show "q < pow2 (expo q + 1)" using hi e by (auto simp: not_le)
qed

lemma expo_unique:
  assumes "pow2 e \<le> q" "q < pow2 (e + 1)"
  shows "expo q = e"
proof -
  have q: "0 < q" using assms(1) pow2_pos[of e] by linarith
  have "\<not> expo q < e"
  proof
    assume "expo q < e"
    then have "pow2 (expo q + 1) \<le> pow2 e" by (intro pow2_mono) simp
    then show False using expo_bounds(2)[OF q] assms(1) by linarith
  qed
  moreover have "\<not> e < expo q"
  proof
    assume "e < expo q"
    then have "pow2 (e + 1) \<le> pow2 (expo q)" by (intro pow2_mono) simp
    then show False using expo_bounds(1)[OF q] assms(2) by linarith
  qed
  ultimately show ?thesis by simp
qed

lemma round_even_of_int [simp]: "round_even (of_int k) = k"
  by (simp add: round_even_def)

lemma round_even_cases:
  "round_even x = \<lfloor>x\<rfloor> \<and> x - of_int \<lfloor>x\<rfloor> \<le> 1 / 2
   \<or> round_even x = \<lfloor>x\<rfloor> + 1 \<and> 1 / 2 \<le> x - of_int \<lfloor>x\<rfloor>"
  by (auto simp: round_even_def Let_def)

lemma round_even_err: "\<bar>of_int (round_even x) - x\<bar> \<le> 1 / 2"
proof -
  have "of_int \<lfloor>x\<rfloor> \<le> x" "x < of_int \<lfloor>x\<rfloor> + 1" by linarith+
  then show ?thesis using round_even_cases[of x] by (auto simp: abs_le_iff)
qed

lemma round_even_mono:
  assumes "x \<le> y"
  shows "round_even x \<le> round_even y"
proof (cases "\<lfloor>x\<rfloor> = \<lfloor>y\<rfloor>")
  case True
  then show ?thesis using assms
    by (auto simp: round_even_def Let_def)
next
  case False
  then have "\<lfloor>x\<rfloor> + 1 \<le> \<lfloor>y\<rfloor>" using floor_mono[OF assms] by linarith
  moreover have "round_even x \<le> \<lfloor>x\<rfloor> + 1" using round_even_cases[of x] by auto
  moreover have "\<lfloor>y\<rfloor> \<le> round_even y" using round_even_cases[of y] by auto
  ultimately show ?thesis by linarith
qed

lemma round_even_ge: "of_int k \<le> x \<Longrightarrow> k \<le> round_even x"
  using round_even_mono[of "of_int k" x] by simp

lemma round_even_le: "x \<le> of_int k \<Longrightarrow> round_even x \<le> k"
  using round_even_mono[of x "of_int k"] by simp

lemma round64_pos:
  assumes "0 < q"
  shows "round64 q =
     (let ulp = pow2 (max (expo q) (- 1022) - 52);
          m = of_int (round_even (q / ulp)) * ulp
      in if pow2 1024 \<le> m then PInf else if m = 0 then Fin 0 else Fin m)"
  using assms by (simp add: round64_def Let_def)

lemma round64_uminus:
  assumes "q \<noteq> 0"
  shows "round64 (- q) = fneg (round64 q)"
proof -
  have *: "0 < pow2 1024" by (rule pow2_pos)
  show ?thesis
    using assms * by (auto simp: round64_def Let_def fneg_def)
qed

lemma round64_exact_gen:
  assumes k: "0 < k" "k < 2 ^ 53" and j: "- 1074 \<le> j" and b: "of_int k * pow2 j < pow2 1024"
  shows "round64 (of_int k * pow2 j) = Fin (of_int k * pow2 j)"
proof -
  define q where "q = of_int k * pow2 j"
  have q: "0 < q" using k pow2_pos[of j] by (simp add: q_def)
  define u where "u = max (expo q) (- 1022) - 52"
  have "q < pow2 53 * pow2 j"
  proof -
    have "(of_int k :: rat) < of_int (2 ^ 53)" using k(2) of_int_less_iff by blast
    then have "(of_int k :: rat) < pow2 53" by (simp add: pow2_def)
    then show ?thesis unfolding q_def using pow2_pos[of j] by simp
  qed
  then have qlt: "q < pow2 (53 + j)" by (simp add: pow2_add)
  with expo_bounds(1)[OF q] have "pow2 (expo q) < pow2 (53 + j)" by linarith
  then have "expo q < 53 + j"
    using pow2_mono[of "53 + j" "expo q"] by (cases "expo q < 53 + j") auto
  then have u: "u \<le> j" using j by (simp add: u_def)
  have "q / pow2 u = of_int k * pow2 (j - u)"
    by (simp add: q_def pow2_diff)
  also have "pow2 (j - u) = of_int (2 ^ nat (j - u))" using u by (simp add: pow2_def)
  finally have "q / pow2 u = of_int (k * 2 ^ nat (j - u))" by simp
  then have "round_even (q / pow2 u) = k * 2 ^ nat (j - u)"
    using round_even_of_int by presburger
  then have "of_int (round_even (q / pow2 u)) * pow2 u = of_int k * (of_int (2 ^ nat (j - u)) * pow2 u)"
    by simp
  also have "of_int (2 ^ nat (j - u)) * pow2 u = pow2 (j - u) * pow2 u" using u by (simp add: pow2_def)
  also have "\<dots> = pow2 j" by (simp add: pow2_add[symmetric])
  finally have m: "of_int (round_even (q / pow2 u)) * pow2 u = q" by (simp add: q_def)
  have "\<not> pow2 1024 \<le> q" using b by (simp add: q_def)
  then show ?thesis
    using q m unfolding q_def[symmetric] by (simp add: round64_pos u_def[symmetric] Let_def)
qed

lemma round64_exact:
  assumes k: "0 < k" "k < 2 ^ 53" and j: "- 1074 \<le> j" "j \<le> 971"
  shows "round64 (of_int k * pow2 j) = Fin (of_int k * pow2 j)"
proof -
  have "(of_int k :: rat) < of_int (2 ^ 53)" using k(2) of_int_less_iff by blast
  then have "(of_int k :: rat) < pow2 53" by (simp add: pow2_def)
  then have "of_int k * pow2 j < pow2 53 * pow2 j" using pow2_pos[of j] by simp
  also have "\<dots> = pow2 (53 + j)" by (simp add: pow2_add)
  also have "\<dots> \<le> pow2 1024" using j(2) by (intro pow2_mono) simp
  finally show ?thesis using k j(1) by (intro round64_exact_gen)
qed

lemma round64_of_nat:
  assumes "n \<le> 2 ^ 53"
  shows "round64 (of_nat n) = Fin (of_nat n)"
proof (cases "n = 0")
  case True
  then show ?thesis by (simp add: round64_def)
next
  case n: False
  show ?thesis
  proof (cases "n = 2 ^ 53")
    case True
    have "round64 (of_int 1 * pow2 53) = Fin (of_int 1 * pow2 53)"
      by (rule round64_exact) simp_all
    then show ?thesis using True by (simp add: pow2_def)
  next
    case False
    have "round64 (of_int (int n) * pow2 0) = Fin (of_int (int n) * pow2 0)"
      using n False assms by (intro round64_exact) simp_all
    then show ?thesis by (simp add: pow2_def)
  qed
qed

text \<open>A positive value of at least the least subnormal rounds to a positive number.\<close>

lemma round64_pos_result:
  assumes "pow2 (- 1074) \<le> q"
  shows "round64 q = PInf \<or> (\<exists>m. 0 < m \<and> round64 q = Fin m)"
proof -
  have q: "0 < q" using assms pow2_pos[of "- 1074"] by linarith
  define u where "u = max (expo q) (- 1022) - 52"
  have "pow2 u \<le> q"
  proof (cases "expo q \<le> - 1022")
    case True
    then have "u = - 1074" by (simp add: u_def)
    then show ?thesis using assms by simp
  next
    case False
    then have "u \<le> expo q" by (simp add: u_def)
    then have "pow2 u \<le> pow2 (expo q)" by (rule pow2_mono)
    then show ?thesis using expo_bounds(1)[OF q] by linarith
  qed
  then have "of_int 1 \<le> q / pow2 u" using pow2_pos[of u] by (simp add: le_divide_eq)
  then have "1 \<le> round_even (q / pow2 u)" by (rule round_even_ge)
  then have "0 < of_int (round_even (q / pow2 u)) * pow2 u" using pow2_pos[of u] by simp
  then show ?thesis using q by (auto simp: round64_pos u_def[symmetric] Let_def)
qed

lemma round_even_eqI:
  assumes "\<bar>x - of_int k\<bar> < 1 / 2"
  shows "round_even x = k"
proof -
  have "\<bar>of_int (round_even x) - (of_int k :: rat)\<bar> < 1"
    using round_even_err[of x] assms by linarith
  then have "\<bar>of_int (round_even x - k) :: rat\<bar> < of_int 1" by simp
  then have "\<bar>round_even x - k\<bar> < 1"
    unfolding of_int_abs[symmetric] of_int_less_iff .
  then show ?thesis by linarith
qed

text \<open>Rounding a concrete value: the exponent and the significand are given, and checked.\<close>

lemma round64_eqI:
  assumes e: "pow2 e \<le> q" "q < pow2 (e + 1)" "- 1022 \<le> e" "e \<le> 1022"
    and k: "\<bar>q - of_int k * pow2 (e - 52)\<bar> < pow2 (e - 52) / 2"
  shows "round64 q = Fin (of_int k * pow2 (e - 52))"
proof -
  have q: "0 < q" using e(1) pow2_pos[of e] by linarith
  have ex: "expo q = e" using e(1,2) by (rule expo_unique)
  define u where "u = pow2 (e - 52)"
  have u: "0 < u" by (simp add: u_def pow2_pos)
  have "q / u - of_int k = (q - of_int k * u) / u"
    using u by (simp add: field_simps)
  then have "\<bar>q / u - of_int k\<bar> = \<bar>q - of_int k * u\<bar> / u"
    using u by (simp add: abs_divide)
  also have "\<dots> < 1 / 2" using k u by (simp add: u_def[symmetric] field_simps)
  finally have r: "round_even (q / u) = k" by (rule round_even_eqI)
  have k': "q - of_int k * u < u / 2" "of_int k * u - q < u / 2"
    using k unfolding u_def[symmetric] by linarith+
  have "pow2 e - u / 2 < of_int k * u" using k'(1) e(1) by linarith
  moreover have "u \<le> pow2 e" unfolding u_def by (intro pow2_mono) simp
  ultimately have kpos: "0 < of_int k * u" using u by linarith
  have "of_int k * u < pow2 (e + 1) + u / 2" using k'(2) e(2) by linarith
  moreover have "pow2 (e + 1) \<le> pow2 1023" using e(4) by (intro pow2_mono) simp
  moreover have "u \<le> pow2 1023" unfolding u_def using e(4) by (intro pow2_mono) simp
  moreover have "pow2 1024 = 2 * pow2 1023" using pow2_add[of 1 1023] by (simp add: pow2_def)
  ultimately have "of_int k * u < pow2 1024" using u by linarith
  then show ?thesis
    using q kpos r e(3) by (simp add: round64_pos ex u_def[symmetric] Let_def max_def)
qed

lemma round_even_tie:
  assumes "even k"
  shows "round_even (of_int k + 1 / 2) = k"
proof -
  have "\<lfloor>of_int k + 1 / 2 :: rat\<rfloor> = k" by linarith
  then show ?thesis using assms by (simp add: round_even_def Let_def)
qed

text \<open>A value halfway between two neighbours goes to the one with the even significand.\<close>

lemma round64_tieI:
  assumes e: "pow2 e \<le> q" "q < pow2 (e + 1)" "- 1022 \<le> e" "e \<le> 1022"
    and k: "q = of_int k * pow2 (e - 52) + pow2 (e - 52) / 2" "even k" "0 < k"
  shows "round64 q = Fin (of_int k * pow2 (e - 52))"
proof -
  have q: "0 < q" using e(1) pow2_pos[of e] by linarith
  have ex: "expo q = e" using e(1,2) by (rule expo_unique)
  define u where "u = pow2 (e - 52)"
  have u: "0 < u" by (simp add: u_def pow2_pos)
  have "q / u = of_int k + 1 / 2"
    using u k(1) by (simp add: u_def[symmetric] field_simps)
  then have r: "round_even (q / u) = k" using round_even_tie[OF k(2)] by simp
  have kpos: "0 < of_int k * u" using u k(3) by simp
  have "of_int k * u < pow2 (e + 1)" using k(1) e(2) u unfolding u_def[symmetric] by linarith
  moreover have "pow2 (e + 1) \<le> pow2 1024" using e(4) by (intro pow2_mono) simp
  ultimately have "of_int k * u < pow2 1024" by linarith
  then show ?thesis
    using q kpos r e(3) by (simp add: round64_pos ex u_def[symmetric] Let_def max_def)
qed

section \<open>Literals and the counting loop\<close>

lemma lit_0 [simp]: "lit 0 = Fin 0"
  by (simp add: lit_def round64_def)

lemma lit_of_nat: "n \<le> 2 ^ 53 \<Longrightarrow> lit (of_nat n) = Fin (of_nat n)"
  by (simp add: lit_def round64_of_nat)

lemma lit_1 [simp]: "lit 1 = Fin 1"
  using lit_of_nat[of 1] by simp

lemma lit_12 [simp]: "lit 12 = Fin 12"
  using lit_of_nat[of 12] by simp

lemma lit_100 [simp]: "lit 100 = Fin 100"
  using lit_of_nat[of 100] by simp

lemma toFixed2_zero: "toFixed2 (Fin 0) = ''0.00''"
  by code_simp

subsection \<open>The counting loop\<close>

lemma while_option_funpow:
  assumes "\<not> b ((c ^^ n) s)" and "\<And>k. k < n \<Longrightarrow> b ((c ^^ k) s)"
  shows "while_option b c s = Some ((c ^^ n) s)"
proof -
  have "(LEAST k. \<not> b ((c ^^ k) s)) = n"
    using assms by (intro Least_equality) (auto simp: not_less[symmetric])
  then show ?thesis using assms(1) by (auto simp: while_option_def)
qed

lemma while_option_forever:
  assumes "\<And>k. b ((c ^^ k) s)"
  shows "while_option b c s = None"
  using assms by (simp add: while_option_def)

lemma counter_step:
  assumes "k < 2 ^ 53"
  shows "fadd (Fin (of_nat k)) (Fin 1) = Fin (of_nat (Suc k))"
proof -
  have "round64 (of_nat (Suc k)) = Fin (of_nat (Suc k))"
    using assms by (intro round64_of_nat) simp
  then show ?thesis
    by (simp add: fadd_def is_NaN_def is_inf_def val_def add.commute)
qed

lemma counter_stuck: "fadd (Fin (2 ^ 53)) (Fin 1) = Fin (2 ^ 53)"
proof -
  have "round64 (2 ^ 53 + 1) = Fin (of_int (2 ^ 52) * pow2 (53 - 52))"
    by (rule round64_tieI) (simp_all add: pow2_def)
  then show ?thesis
    by (simp add: fadd_def is_NaN_def is_inf_def val_def pow2_def)
qed

lemma flt_of_nat: "flt (Fin (of_nat k)) (Fin (of_nat n)) \<longleftrightarrow> k < n"
  by (simp add: flt_def is_NaN_def val_def)

lemma sip_loop_funpow:
  fixes g :: "number \<Rightarrow> number"
  assumes "k \<le> 2 ^ 53"
  shows "((\<lambda>(i, totalAmount). (fadd i (Fin 1), g totalAmount)) ^^ k) (Fin 0, t)
         = (Fin (of_nat k), (g ^^ k) t)"
  using assms
proof (induction k)
  case 0
  show ?case by simp
next
  case (Suc k)
  then have "k < 2 ^ 53" by simp
  then show ?case using Suc.IH counter_step[of k] by simp
qed

lemma sip_loop_result:
  fixes g :: "number \<Rightarrow> number"
  assumes "n \<le> 2 ^ 53"
  shows "while_option (\<lambda>(i, totalAmount). flt i (Fin (of_nat n)))
           (\<lambda>(i, totalAmount). (fadd i (Fin 1), g totalAmount)) (Fin 0, t)
         = Some (Fin (of_nat n), (g ^^ n) t)"
proof -
  let ?b = "\<lambda>(i, totalAmount :: number). flt i (Fin (of_nat n))"
  let ?c = "\<lambda>(i, totalAmount). (fadd i (Fin 1), g totalAmount)"
  have "while_option ?b ?c (Fin 0, t) = Some ((?c ^^ n) (Fin 0, t))"
  proof (rule while_option_funpow)
    show "\<not> ?b ((?c ^^ n) (Fin 0, t))"
      using assms by (simp add: sip_loop_funpow flt_of_nat)
    fix k assume "k < n"
    then show "?b ((?c ^^ k) (Fin 0, t))"
      using assms by (simp add: sip_loop_funpow flt_of_nat)
  qed
  then show ?thesis using assms by (simp add: sip_loop_funpow)
qed

lemma sip_loop_counter_bounded:
  fixes g :: "number \<Rightarrow> number"
  shows "\<exists>j \<le> 2 ^ 53. fst (((\<lambda>(i, totalAmount). (fadd i (Fin 1), g totalAmount)) ^^ k) (Fin 0, t))
      = Fin (of_nat j)"
proof (induction k)
  case 0
  show ?case by (intro exI[of _ 0]) simp
next
  case (Suc k)
  let ?c = "\<lambda>(i, totalAmount). (fadd i (Fin 1), g totalAmount)"
  from Suc obtain j where j: "j \<le> 2 ^ 53" "fst ((?c ^^ k) (Fin 0, t)) = Fin (of_nat j)"
    by blast
  have st: "fst ((?c ^^ Suc k) (Fin 0, t)) = fadd (Fin (of_nat j)) (Fin 1)"
    using j(2) by (simp add: case_prod_unfold)
  show ?case
  proof (cases "j < 2 ^ 53")
    case True
    then show ?thesis using st counter_step[of j] by (intro exI[of _ "Suc j"]) simp
  next
    case False
    then have "j = 2 ^ 53" using j(1) by simp
    then show ?thesis using st counter_stuck by (intro exI[of _ "2 ^ 53"]) simp
  qed
qed

lemma sip_loop_diverges:
  fixes g :: "number \<Rightarrow> number"
  assumes "2 ^ 53 < n"
  shows "while_option (\<lambda>(i, totalAmount). flt i (Fin (of_nat n)))
           (\<lambda>(i, totalAmount). (fadd i (Fin 1), g totalAmount)) (Fin 0, t) = None"
proof (rule while_option_forever)
  fix k
  let ?c = "\<lambda>(i, totalAmount). (fadd i (Fin 1), g totalAmount)"
  obtain j where j: "j \<le> 2 ^ 53" "fst ((?c ^^ k) (Fin 0, t)) = Fin (of_nat j)"
    using sip_loop_counter_bounded[where g = g and k = k and t = t] by blast
  have "flt (Fin (of_nat j)) (Fin (of_nat n))" using j(1) assms by (simp add: flt_of_nat)
  then show "(\<lambda>(i, totalAmount). flt i (Fin (of_nat n))) ((?c ^^ k) (Fin 0, t))"
    using j(2) by (simp add: case_prod_unfold)
qed

lemma sipReturns_diverges:
  assumes "2 ^ 53 < n"
  shows "sipReturns x (Fin (of_nat n)) r = None"
  using sip_loop_diverges[OF assms] by (simp add: sipReturns_def)

section \<open>Evaluating concrete calls\<close>

lemma fdiv_Fin:
  "p \<noteq> 0 \<Longrightarrow> q \<noteq> 0 \<Longrightarrow> fdiv (Fin p) (Fin q) = round64 (p / q)"
  by (simp add: fdiv_def is_NaN_def is_inf_def is_zero_def val_def)

lemma fmul_Fin:
  "p \<noteq> 0 \<Longrightarrow> q \<noteq> 0 \<Longrightarrow> fmul (Fin p) (Fin q) = round64 (p * q)"
  by (simp add: fmul_def is_NaN_def is_inf_def is_zero_def val_def)

lemma fadd_Fin: "fadd (Fin p) (Fin q) = round64 (p + q)"
  by (simp add: fadd_def is_NaN_def is_inf_def val_def)

lemma toFixed2_4: "toFixed2 (Fin 4) = ''4.00''"
  by code_simp

lemma toFixed2_30: "toFixed2 (Fin 30) = ''30.00''"
  by code_simp

lemma toFixed2_101: "toFixed2 (Fin 101) = ''101.00''"
  by code_simp

lemma safeWithdrawalRate_example:
  "safeWithdrawalRate (lit 1000000) (lit 30) (lit 40000) = ''4.00''"
proof -
  have l: "lit 1000000 = Fin 1000000" "lit 40000 = Fin 40000"
    using lit_of_nat[of 1000000] lit_of_nat[of 40000] by simp_all
  have d: "round64 (40000 / 1000000) = Fin (of_int 5764607523034235 * pow2 (- 5 - 52))"
    by (rule round64_eqI) (simp_all add: pow2_def)
  have m: "round64 (5764607523034235 / 144115188075855872 * 100) = Fin (of_int (2 ^ 52) * pow2 (2 - 52))"
    by (rule round64_eqI) (simp_all add: pow2_def)
  have "fmul (fdiv (Fin 40000) (Fin 1000000)) (Fin 100) = Fin 4"
    using d m by (simp add: fdiv_Fin fmul_Fin pow2_def)
  then show ?thesis
    by (simp add: safeWithdrawalRate_def l toFixed2_4)
qed

lemma calculateDTI_example: "calculateDTI (lit 1500) (lit 5000) = ''30.00''"
proof -
  have l: "lit 1500 = Fin 1500" "lit 5000 = Fin 5000"
    using lit_of_nat[of 1500] lit_of_nat[of 5000] by simp_all
  have d: "round64 (1500 / 5000) = Fin (of_int 5404319552844595 * pow2 (- 2 - 52))"
    by (rule round64_eqI) (simp_all add: pow2_def)
  have m: "round64 (5404319552844595 / 18014398509481984 * 100) = Fin (of_int 8444249301319680 * pow2 (4 - 52))"
    by (rule round64_eqI) (simp_all add: pow2_def)
  have "fmul (fdiv (Fin 1500) (Fin 5000)) (Fin 100) = Fin 30"
    using d m by (simp add: fdiv_Fin fmul_Fin pow2_def)
  then show ?thesis
    by (simp add: calculateDTI_def l toFixed2_30)
qed

lemma sip_one_month:
  "fmul (fadd (Fin 0) (Fin 100)) (fadd (Fin 1) (fdiv (lit (12 / 100)) (Fin 12))) = Fin 101"
proof -
  have a: "round64 (12 / 100) = Fin (of_int 8646911284551352 * pow2 (- 4 - 52))"
    by (rule round64_eqI) (simp_all add: pow2_def)
  have b: "round64 (1080863910568919 / 9007199254740992 / 12) = Fin (of_int 5764607523034235 * pow2 (- 7 - 52))"
    by (rule round64_eqI) (simp_all add: pow2_def)
  have c: "round64 (1 + 5764607523034235 / 576460752303423488) = Fin (of_int 4548635623644201 * pow2 (0 - 52))"
    by (rule round64_eqI) (simp_all add: pow2_def)
  have d: "round64 (100 * (4548635623644201 / 4503599627370496)) = Fin (of_int 7107243161944064 * pow2 (6 - 52))"
    by (rule round64_eqI) (simp_all add: pow2_def)
  have e: "round64 100 = Fin 100" using round64_of_nat[of 100] by simp
  show ?thesis
    using a b c d e by (simp add: lit_def fdiv_Fin fmul_Fin fadd_Fin pow2_def)
qed

lemma fdiv_zero_cases:
  assumes "is_zero i"
  shows "fdiv d i = NaN \<or> fdiv d i = PInf \<or> fdiv d i = NInf"
  using assms by (auto simp: fdiv_def inf_of_def)

lemma fmul_100_special:
  "fmul NaN (Fin 100) = NaN" "fmul PInf (Fin 100) = PInf" "fmul NInf (Fin 100) = NInf"
  by (simp_all add: fmul_def is_NaN_def is_inf_def is_zero_def inf_of_def neg_sign_def)

section \<open>The order of the numbers and the sort\<close>

lemma fle_total: "\<not> is_NaN x \<Longrightarrow> \<not> is_NaN y \<Longrightarrow> fle x y \<or> fle y x"
  by (cases x; cases y) (auto simp: fle_def flt_def is_NaN_def val_def)

lemma fle_trans: "fle x y \<Longrightarrow> fle y z \<Longrightarrow> fle x z"
  by (cases x; cases y; cases z) (auto simp: fle_def flt_def is_NaN_def val_def)

lemma feq_not_flt: "feq x k \<Longrightarrow> feq y k \<Longrightarrow> \<not> flt y x"
  by (cases x; cases y; cases k) (auto simp: feq_def fle_def flt_def is_NaN_def val_def)

subsection \<open>The grid of the finite numbers\<close>

lemma fneg_eq_Fin: "fneg x = Fin q \<Longrightarrow> q \<noteq> 0 \<Longrightarrow> x = Fin (- q)"
  by (cases x) (auto simp: fneg_def split: if_splits)

lemma double_grid_pos:
  assumes "0 < q" "round64 q = Fin q"
  shows "\<exists>n :: int. q = of_int n * pow2 (- 1074)"
proof -
  define u where "u = max (expo q) (- 1022) - 52"
  have u: "- 1074 \<le> u" by (simp add: u_def)
  define k where "k = round_even (q / pow2 u)"
  have q: "q = of_int k * pow2 u"
    using assms by (simp add: round64_pos u_def[symmetric] k_def Let_def split: if_splits)
  have "pow2 u = pow2 (u + 1074) * pow2 (- 1074)" by (simp add: pow2_add[symmetric])
  moreover have "pow2 (u + 1074) = of_int (2 ^ nat (u + 1074))" using u by (simp add: pow2_def)
  ultimately have "q = of_int (k * 2 ^ nat (u + 1074)) * pow2 (- 1074)"
    using q by simp
  then show ?thesis by blast
qed

lemma double_grid:
  assumes "is_double (Fin q)"
  shows "\<exists>n :: int. q = of_int n * pow2 (- 1074)"
proof -
  have r: "round64 q = Fin q" using assms by (simp add: is_double_def)
  consider "q = 0" | "0 < q" | "q < 0" by linarith
  then show ?thesis
  proof cases
    case 1
    then show ?thesis by (intro exI[of _ 0]) simp
  next
    case 2
    then show ?thesis using r by (rule double_grid_pos)
  next
    case 3
    then have "fneg (round64 (- q)) = Fin q" using round64_uminus[of "- q"] r by simp
    then have "round64 (- q) = Fin (- q)" using 3 fneg_eq_Fin by blast
    then obtain n :: int where "- q = of_int n * pow2 (- 1074)"
      using double_grid_pos[of "- q"] 3 by auto
    then have "q = of_int (- n) * pow2 (- 1074)" by simp
    then show ?thesis by blast
  qed
qed

lemma double_gap:
  assumes "is_double (Fin p)" "is_double (Fin q)" "q < p"
  shows "pow2 (- 1074) \<le> p - q"
proof -
  obtain n m :: int where n: "p = of_int n * pow2 (- 1074)" and m: "q = of_int m * pow2 (- 1074)"
    using double_grid assms(1,2) by blast
  have "(of_int m :: rat) < of_int n" using assms(3) pow2_pos[of "- 1074"] unfolding n m by simp
  then have "m + 1 \<le> n" by simp
  then have "(of_int (m + 1) :: rat) \<le> of_int n" unfolding of_int_le_iff .
  then have "of_int (m + 1) * pow2 (- 1074) \<le> of_int n * pow2 (- 1074)"
    using pow2_pos[of "- 1074"] by simp
  then show ?thesis unfolding n m by (simp add: algebra_simps)
qed

text \<open>The difference of two numbers has the sign of the exact difference.\<close>

lemma round64_diff_sign:
  assumes "is_double (Fin p)" "is_double (Fin q)"
  shows "flt (Fin 0) (round64 (p - q)) \<longleftrightarrow> q < p"
proof -
  consider "p = q" | "q < p" | "p < q" by linarith
  then show ?thesis
  proof cases
    case 1
    then show ?thesis by (simp add: round64_def flt_def is_NaN_def val_def)
  next
    case 2
    from round64_pos_result[OF double_gap[OF assms 2]] 2 show ?thesis
      by (auto simp: flt_def is_NaN_def val_def)
  next
    case 3
    have "round64 (p - q) = fneg (round64 (q - p))"
      using round64_uminus[of "q - p"] 3 by simp
    with round64_pos_result[OF double_gap[OF assms(2,1) 3]] 3 show ?thesis
      by (auto simp: flt_def is_NaN_def val_def fneg_def)
  qed
qed

lemma round64_not_NaN [simp]: "\<not> is_NaN (round64 q)"
  by (simp add: round64_def Let_def is_NaN_def)

lemma fsub_Fin:
  "fsub (Fin p) (Fin q) = (if q = 0 then Fin p else round64 (p - q))"
  by (simp add: fsub_def fneg_def fadd_def is_NaN_def is_inf_def val_def)

lemma difference_sign:
  assumes "is_double x" "is_double y" "\<not> is_NaN x" "\<not> is_NaN y"
  shows "flt (Fin 0) (if is_NaN (fsub x y) then Fin 0 else fsub x y) \<longleftrightarrow> flt y x"
proof (cases x)
  case (Fin p)
  show ?thesis
  proof (cases y)
    case (Fin q)
    show ?thesis
      using round64_diff_sign[of p q] assms(1,2) unfolding \<open>x = Fin p\<close> \<open>y = Fin q\<close>
      by (auto simp: fsub_Fin flt_def is_NaN_def val_def)
  qed (use \<open>x = Fin p\<close> assms(1,4) in
        \<open>auto simp: fsub_def fneg_def fadd_def flt_def is_NaN_def is_inf_def val_def is_double_def\<close>)
qed (use assms(3,4) in
      \<open>cases y; auto simp: fsub_def fneg_def fadd_def flt_def is_NaN_def is_inf_def val_def\<close>)+

lemma compare_by_difference:
  assumes "is_double (f u)" "is_double (f v)" "\<not> is_NaN (f u)" "\<not> is_NaN (f v)"
  shows "flt (Fin 0) (SortCompare (\<lambda>a b. fsub (f a) (f b)) u v) \<longleftrightarrow> flt (f v) (f u)"
  using difference_sign[OF assms] by (simp add: SortCompare_def Let_def)

subsection \<open>The sort\<close>

lemma mset_sort_insert: "mset (sort_insert cmp x ys) = add_mset x (mset ys)"
  by (induction ys) simp_all

lemma mset_Array_sort: "mset (Array_sort cmp xs) = mset xs"
  by (induction xs) (simp_all add: mset_sort_insert)

lemma set_Array_sort: "set (Array_sort cmp xs) = set xs"
  using mset_Array_sort[of cmp xs] by (metis set_mset_mset)

lemma set_sort_insert: "set (sort_insert cmp x ys) = insert x (set ys)"
  using mset_sort_insert[of cmp x ys] by (metis set_mset_mset set_mset_add_mset_insert)

lemma agrees_subset: "agrees cmp key S \<Longrightarrow> T \<subseteq> S \<Longrightarrow> agrees cmp key T"
  by (auto simp: agrees_def)

lemma sorted_sort_insert:
  assumes "agrees cmp key (insert x (set ys))"
    and "sorted_wrt (\<lambda>a b. fle (key a) (key b)) ys"
  shows "sorted_wrt (\<lambda>a b. fle (key a) (key b)) (sort_insert cmp x ys)"
  using assms
proof (induction ys)
  case Nil
  show ?case by simp
next
  case (Cons y ys)
  have ag: "agrees cmp key (insert x (set ys))"
    using Cons.prems(1) by (rule agrees_subset) auto
  have nn: "\<not> is_NaN (key x)" "\<not> is_NaN (key y)"
    using Cons.prems(1) by (auto simp: agrees_def)
  have c: "flt (Fin 0) (SortCompare cmp x y) \<longleftrightarrow> flt (key y) (key x)"
    using Cons.prems(1) by (auto simp: agrees_def)
  show ?case
  proof (cases "flt (Fin 0) (SortCompare cmp x y)")
    case True
    then have yx: "fle (key y) (key x)"
      using c nn fle_total[of "key x" "key y"] by (auto simp: fle_def)
    have "sorted_wrt (\<lambda>a b. fle (key a) (key b)) (sort_insert cmp x ys)"
      using Cons.IH[OF ag] Cons.prems(2) by simp
    then show ?thesis
      using True yx Cons.prems(2) by (auto simp: set_sort_insert)
  next
    case False
    then have xy: "fle (key x) (key y)" using c nn by (simp add: fle_def)
    then have "\<forall>z \<in> set ys. fle (key x) (key z)"
      using Cons.prems(2) fle_trans by auto
    then show ?thesis using False xy Cons.prems(2) by simp
  qed
qed

lemma sorted_Array_sort:
  assumes "agrees cmp key (set xs)"
  shows "sorted_wrt (\<lambda>a b. fle (key a) (key b)) (Array_sort cmp xs)"
  using assms
proof (induction xs)
  case Nil
  show ?case by simp
next
  case (Cons x xs)
  have "agrees cmp key (set xs)" using Cons.prems by (rule agrees_subset) auto
  then have "sorted_wrt (\<lambda>a b. fle (key a) (key b)) (Array_sort cmp xs)" by (rule Cons.IH)
  moreover have "agrees cmp key (insert x (set (Array_sort cmp xs)))"
    using Cons.prems by (simp add: set_Array_sort)
  ultimately show ?case by (simp add: sorted_sort_insert)
qed

lemma filter_sort_insert:
  assumes "agrees cmp key (insert x (set ys))"
  shows "filter (\<lambda>d. feq (key d) k) (sort_insert cmp x ys)
         = filter (\<lambda>d. feq (key d) k) (x # ys)"
  using assms
proof (induction ys)
  case Nil
  show ?case by simp
next
  case (Cons y ys)
  have ag: "agrees cmp key (insert x (set ys))"
    using Cons.prems(1) by (rule agrees_subset) auto
  have c: "flt (Fin 0) (SortCompare cmp x y) \<longleftrightarrow> flt (key y) (key x)"
    using Cons.prems(1) by (auto simp: agrees_def)
  show ?case
  proof (cases "flt (Fin 0) (SortCompare cmp x y)")
    case True
    then have "\<not> (feq (key x) k \<and> feq (key y) k)" using c feq_not_flt by blast
    then show ?thesis using True Cons.IH[OF ag] by auto
  next
    case False
    then show ?thesis by simp
  qed
qed

lemma stable_Array_sort:
  assumes "agrees cmp key (set xs)"
  shows "filter (\<lambda>d. feq (key d) k) (Array_sort cmp xs) = filter (\<lambda>d. feq (key d) k) xs"
  using assms
proof (induction xs)
  case Nil
  show ?case by simp
next
  case (Cons x xs)
  have ag: "agrees cmp key (set xs)" using Cons.prems by (rule agrees_subset) auto
  have "agrees cmp key (insert x (set (Array_sort cmp xs)))"
    using Cons.prems by (simp add: set_Array_sort)
  then have "filter (\<lambda>d. feq (key d) k) (Array_sort cmp (x # xs))
             = filter (\<lambda>d. feq (key d) k) (x # Array_sort cmp xs)"
    by (simp add: filter_sort_insert)
  then show ?case using Cons.IH[OF ag] by simp
qed

text \<open>A list that is in order already is returned as it is.\<close>

lemma Array_sort_sorted:
  assumes "agrees cmp key (set xs)"
    and "sorted_wrt (\<lambda>a b. fle (key a) (key b)) xs"
  shows "Array_sort cmp xs = xs"
  using assms
proof (induction xs)
  case Nil
  show ?case by simp
next
  case (Cons x xs)
  have ag: "agrees cmp key (set xs)" using Cons.prems(1) by (rule agrees_subset) auto
  have xs: "Array_sort cmp xs = xs" using Cons.IH[OF ag] Cons.prems(2) by simp
  show ?case
  proof (cases xs)
    case Nil
    then show ?thesis by simp
  next
    case (Cons y ys)
    have "fle (key x) (key y)" using Cons.prems(2) Cons by simp
    then have "\<not> flt (key y) (key x)" by (simp add: fle_def)
    moreover have "flt (Fin 0) (SortCompare cmp x y) \<longleftrightarrow> flt (key y) (key x)"
      using Cons.prems(1) Cons by (auto simp: agrees_def)
    ultimately show ?thesis using xs Cons by simp
  qed
qed

lemma flt_fneg: "flt (fneg x) (fneg y) \<longleftrightarrow> flt y x"
  by (cases x; cases y) (auto simp: flt_def fneg_def is_NaN_def val_def)

lemma is_NaN_fneg [simp]: "is_NaN (fneg x) \<longleftrightarrow> is_NaN x"
  by (cases x) (auto simp: fneg_def is_NaN_def)

lemma fle_fneg: "fle (fneg x) (fneg y) \<longleftrightarrow> fle y x"
  by (auto simp: fle_def flt_fneg)

lemma feq_fneg: "feq (fneg x) (fneg y) \<longleftrightarrow> feq x y"
  by (auto simp: feq_def fle_fneg)

lemma fneg_fneg: "fneg (fneg x) = x"
  by (cases x) (auto simp: fneg_def)

lemma agrees_balance:
  assumes "\<forall>d \<in> set ds. is_double (balance d) \<and> \<not> is_NaN (balance d)"
  shows "agrees (\<lambda>a b. fsub (balance a) (balance b)) balance (set ds)"
  using assms by (simp add: agrees_def compare_by_difference)

lemma agrees_interestRate:
  assumes "\<forall>d \<in> set ds. is_double (interestRate d) \<and> \<not> is_NaN (interestRate d)"
  shows "agrees (\<lambda>a b. fsub (interestRate b) (interestRate a)) (\<lambda>d. fneg (interestRate d)) (set ds)"
  unfolding agrees_def
proof (intro conjI ballI)
  fix a assume "a \<in> set ds"
  then show "\<not> is_NaN (fneg (interestRate a))" using assms by simp
next
  fix a b assume ab: "a \<in> set ds" "b \<in> set ds"
  have "flt (Fin 0) (SortCompare (\<lambda>a b. fsub (interestRate a) (interestRate b)) b a)
        \<longleftrightarrow> flt (interestRate a) (interestRate b)"
    using assms ab by (intro compare_by_difference) auto
  then show "flt (Fin 0) (SortCompare (\<lambda>a b. fsub (interestRate b) (interestRate a)) a b)
        \<longleftrightarrow> flt (fneg (interestRate b)) (fneg (interestRate a))"
    by (simp add: SortCompare_def flt_fneg)
qed

section \<open>Rounding stays inside the type\<close>

lemma is_double_fneg: "is_double (fneg x) \<longleftrightarrow> is_double x"
proof (cases x)
  case (Fin q)
  show ?thesis
  proof (cases "q = 0")
    case True
    then show ?thesis using Fin by (simp add: fneg_def is_double_def round64_def)
  next
    case False
    have n: "round64 (- q) = fneg (round64 q)" by (rule round64_uminus[OF False])
    have "round64 (- q) = Fin (- q) \<longleftrightarrow> round64 q = Fin q"
    proof
      assume "round64 (- q) = Fin (- q)"
      then have "fneg (round64 q) = Fin (- q)" using n by simp
      then show "round64 q = Fin q" using fneg_eq_Fin[of "round64 q" "- q"] False by simp
    next
      assume "round64 q = Fin q"
      then show "round64 (- q) = Fin (- q)" using n False by (simp add: fneg_def)
    qed
    then show ?thesis using Fin False by (simp add: fneg_def is_double_def)
  qed
qed (simp_all add: fneg_def is_double_def round64_def)

text \<open>Rounding gives a value of the type.\<close>

lemma is_double_round64_pos:
  assumes "0 < q"
  shows "is_double (round64 q)"
proof -
  define u where "u = max (expo q) (- 1022) - 52"
  define k where "k = round_even (q / pow2 u)"
  have r: "round64 q = (if pow2 1024 \<le> of_int k * pow2 u then PInf
                        else if of_int k * pow2 u = 0 then Fin 0 else Fin (of_int k * pow2 u))"
    using assms by (simp add: round64_pos u_def[symmetric] k_def[symmetric] Let_def)
  have u: "- 1074 \<le> u" by (simp add: u_def)
  have "q < pow2 (u + 53)"
  proof (cases "- 1022 \<le> expo q")
    case True
    then have "expo q + 1 = u + 53" by (simp add: u_def)
    then show ?thesis using expo_bounds(2)[OF assms] by metis
  next
    case False
    then have "pow2 (expo q + 1) \<le> pow2 (u + 53)" by (intro pow2_mono) (simp add: u_def)
    then show ?thesis using expo_bounds(2)[OF assms] by linarith
  qed
  then have "q / pow2 u < pow2 (u + 53) / pow2 u"
    using pow2_pos[of u] by (simp add: divide_strict_right_mono)
  also have "\<dots> = of_int (2 ^ 53)" using pow2_diff[of "u + 53" u, symmetric] by (simp add: pow2_def)
  finally have k53: "k \<le> 2 ^ 53" unfolding k_def by (intro round_even_le) simp
  have "0 \<le> q / pow2 u" using assms pow2_pos[of u] by simp
  then have k0: "0 \<le> k" unfolding k_def using round_even_ge[of 0 "q / pow2 u"] by simp
  show ?thesis
  proof (cases "pow2 1024 \<le> of_int k * pow2 u \<or> of_int k * pow2 u = 0")
    case True
    then show ?thesis using r by (auto simp: is_double_def round64_def)
  next
    case False
    then have lt: "of_int k * pow2 u < pow2 1024" and kpos: "0 < k"
      using k0 by (auto simp: not_le less_le)
    have "round64 (of_int k * pow2 u) = Fin (of_int k * pow2 u)"
    proof (cases "k = 2 ^ 53")
      case True
      have "pow2 53 = 2 ^ 53" by (simp add: pow2_def)
      then have e: "of_int k * pow2 u = of_int 1 * pow2 (u + 53)"
        using True pow2_add[of u 53] by simp
      have "round64 (of_int 1 * pow2 (u + 53)) = Fin (of_int 1 * pow2 (u + 53))"
      proof (rule round64_exact_gen)
        show "- 1074 \<le> u + 53" using u by simp
        show "of_int 1 * pow2 (u + 53) < pow2 1024" using lt unfolding e .
      qed simp_all
      then show ?thesis unfolding e .
    next
      case False
      then have "k < 2 ^ 53" using k53 by simp
      then show ?thesis using kpos u lt by (intro round64_exact_gen)
    qed
    then show ?thesis using r False by (simp add: is_double_def)
  qed
qed

lemma is_double_round64 [simp]: "is_double (round64 q)"
proof -
  consider "q = 0" | "0 < q" | "q < 0" by linarith
  then show ?thesis
  proof cases
    case 1
    then show ?thesis by (simp add: round64_def is_double_def)
  next
    case 2
    then show ?thesis by (rule is_double_round64_pos)
  next
    case 3
    then have "round64 q = fneg (round64 (- q))" using round64_uminus[of "- q"] by simp
    then show ?thesis using is_double_round64_pos[of "- q"] 3 by (simp add: is_double_fneg)
  qed
qed

lemma is_double_lit [simp]: "is_double (lit q)"
  by (simp add: lit_def)

lemma not_NaN_lit [simp]: "\<not> is_NaN (lit q)"
  by (simp add: lit_def)

lemma is_double_special [simp]:
  "is_double NaN" "is_double PInf" "is_double NInf" "is_double NZero" "is_double (Fin 0)"
  by (simp_all add: is_double_def round64_def)

lemma is_double_fadd: "is_double x \<Longrightarrow> is_double y \<Longrightarrow> is_double (fadd x y)"
  by (auto simp: fadd_def)

lemma is_double_fsub: "is_double x \<Longrightarrow> is_double y \<Longrightarrow> is_double (fsub x y)"
  by (simp add: fsub_def is_double_fadd is_double_fneg)

lemma is_double_fmul: "is_double (fmul x y)"
  by (auto simp: fmul_def inf_of_def zero_of_def)

lemma is_double_fdiv: "is_double (fdiv x y)"
  by (auto simp: fdiv_def inf_of_def zero_of_def)

lemma round64_numeral:
  "numeral w \<le> (2 ^ 53 :: nat) \<Longrightarrow> round64 (numeral w) = Fin (numeral w)"
  "numeral w \<le> (2 ^ 53 :: nat) \<Longrightarrow> round64 (- numeral w) = Fin (- numeral w)"
proof -
  assume w: "numeral w \<le> (2 ^ 53 :: nat)"
  from round64_of_nat[OF this] show p: "round64 (numeral w) = Fin (numeral w)" by simp
  have "round64 (- numeral w) = fneg (round64 (numeral w))"
    by (rule round64_uminus) simp
  then show "round64 (- numeral w) = Fin (- numeral w)" using p by (simp add: fneg_def)
qed

lemma lit_numeral: "numeral w \<le> (2 ^ 53 :: nat) \<Longrightarrow> lit (numeral w) = Fin (numeral w)"
  by (simp add: lit_def round64_numeral)

lemma debtSnowball_test:
  "debtSnowball test_debts =
     [\<lparr>name = ''Credit Card B'', balance = lit 2500\<rparr>,
      \<lparr>name = ''Credit Card A'', balance = lit 5000\<rparr>,
      \<lparr>name = ''Personal Loan'', balance = lit 10000\<rparr>]"
  by (simp add: test_debts_def debtSnowball_def SortCompare_def lit_numeral fsub_Fin round64_numeral
      flt_def is_NaN_def val_def)

lemma lit_rates:
  "lit (9 / 50) = Fin (of_int 6485183463413514 * pow2 (- 3 - 52))"
  "lit (3 / 25) = Fin (of_int 8646911284551352 * pow2 (- 4 - 52))"
  "lit (3 / 50) = Fin (of_int 8646911284551352 * pow2 (- 5 - 52))"
  unfolding lit_def by (rule round64_eqI; simp add: pow2_def)+

lemma test_rates_descending:
  "sorted_wrt (\<lambda>a b. fle (interestRate b) (interestRate a)) test_rates"
  by (simp add: test_rates_def lit_rates pow2_def fle_def flt_def is_NaN_def val_def)

section \<open>Zero exponent and zero rate\<close>

lemma Math_pow_zero_exponent: "is_zero e \<Longrightarrow> Math_pow approx b e = Fin 1"
  by (cases e) (auto simp: Math_pow_def is_NaN_def is_zero_def)

lemma toFixed2_m100000: "toFixed2 (Fin (- 100000)) = ''-100000.00''"
  by code_simp

lemma retirement_no_horizon:
  "retirementSavingsGoal approx (lit 2000) (Fin 0) (lit 12) (lit 100000) = ''-100000.00''"
proof -
  have a: "round64 (1 / 100) = Fin (of_int 5764607523034235 * pow2 (- 7 - 52))"
    by (rule round64_eqI) (simp_all add: pow2_def)
  have b: "round64 (1 + 5764607523034235 / 576460752303423488) = Fin (of_int 4548635623644201 * pow2 (0 - 52))"
    by (rule round64_eqI) (simp_all add: pow2_def)
  have l: "lit 2000 = Fin 2000" "lit 100000 = Fin 100000"
    by (simp_all add: lit_numeral)
  have m: "fmul (Fin 0) (Fin 12) = Fin 0"
    by (simp add: fmul_def is_NaN_def is_inf_def is_zero_def zero_of_def neg_sign_def)
  have r: "fdiv (fdiv (Fin 12) (Fin 12)) (Fin 100) = Fin (5764607523034235 / 576460752303423488)"
    using a round64_numeral(1)[of num.One] by (simp add: fdiv_Fin pow2_def)
  have z: "fsub (Fin 1) (Fin 1) = Fin 0" by (simp add: fsub_Fin round64_def)
  have q: "fdiv (Fin 0) (Fin (5764607523034235 / 576460752303423488)) = Fin 0"
    by (simp add: fdiv_def is_NaN_def is_inf_def is_zero_def zero_of_def neg_sign_def)
  have f: "fmul (fmul (Fin 2000) (Fin 0)) (fadd (Fin 1) (Fin (5764607523034235 / 576460752303423488))) = Fin 0"
    using b by (simp add: fadd_Fin fmul_def is_NaN_def is_inf_def is_zero_def zero_of_def neg_sign_def pow2_def)
  have s: "fsub (Fin 0) (Fin 100000) = Fin (- 100000)"
    by (simp add: fsub_Fin round64_numeral)
  show ?thesis
    by (simp add: retirementSavingsGoal_def l m r Math_pow_zero_exponent is_zero_def z q f s
        toFixed2_m100000)
qed

lemma fdiv_zero_is_zero: "is_zero a \<Longrightarrow> is_zero (fdiv (fdiv a (Fin 12)) (Fin 100))"
  by (cases a) (auto simp: fdiv_def zero_of_def is_zero_def is_NaN_def is_inf_def)

lemma fadd_one_zero: "is_zero r \<Longrightarrow> fadd (Fin 1) r = Fin 1"
  using round64_of_nat[of 1]
  by (cases r) (auto simp: fadd_def is_zero_def is_NaN_def is_inf_def val_def)

lemma fmul_by_zero: "is_zero r \<Longrightarrow> is_NaN (fmul P r) \<or> is_zero (fmul P r)"
  by (cases P; cases r)
    (auto simp: fmul_def zero_of_def is_zero_def is_NaN_def is_inf_def neg_sign_def)

lemma fmul_one_keeps: "is_NaN x \<or> is_zero x \<Longrightarrow> is_NaN (fmul x (Fin 1)) \<or> is_zero (fmul x (Fin 1))"
  by (cases x)
    (auto simp: fmul_def zero_of_def is_zero_def is_NaN_def is_inf_def neg_sign_def)

lemma fdiv_over_zero: "is_NaN x \<or> is_zero x \<Longrightarrow> fdiv x (Fin 0) = NaN"
  by (cases x) (auto simp: fdiv_def is_zero_def is_NaN_def is_inf_def)

lemma Math_pow_base_one:
  "Math_pow approx (Fin 1) n = Fin 1 \<or> Math_pow approx (Fin 1) n = NaN
   \<or> Math_pow approx (Fin 1) n = approx (Fin 1) n"
  by (cases n) (auto simp: Math_pow_def flt_def val_def is_NaN_def is_zero_def)

lemma emi_zero_rate:
  assumes "is_zero (fdiv (fdiv a (lit 12)) (lit 100))" "approx (Fin 1) (fmul y (lit 12)) = Fin 1"
  shows "calculateEMI approx P a y = ''NaN''"
proof -
  define r where "r = fdiv (fdiv a (Fin 12)) (Fin 100)"
  define n where "n = fmul y (Fin 12)"
  have a2: "approx (Fin 1) n = Fin 1" using assms(2) by (simp add: n_def)
  have r: "is_zero r" using assms(1) by (simp add: r_def)
  have b: "fadd (Fin 1) r = Fin 1" using r by (rule fadd_one_zero)
  have w: "Math_pow approx (Fin 1) n = Fin 1 \<or> Math_pow approx (Fin 1) n = NaN"
    using Math_pow_base_one[of approx n] a2 by auto
  have "fdiv (fmul (fmul P r) (Math_pow approx (Fin 1) n)) (fsub (Math_pow approx (Fin 1) n) (Fin 1)) = NaN"
    using w
  proof
    assume 1: "Math_pow approx (Fin 1) n = Fin 1"
    have "fsub (Fin 1) (Fin 1) = Fin 0" by (simp add: fsub_Fin round64_def)
    then show ?thesis
      unfolding 1 using fdiv_over_zero[OF fmul_one_keeps[OF fmul_by_zero[OF r, of P]]] by simp
  next
    assume "Math_pow approx (Fin 1) n = NaN"
    then show ?thesis by (simp add: fmul_def fdiv_def is_NaN_def)
  qed
  then show ?thesis
    by (simp add: calculateEMI_def r_def[symmetric] n_def[symmetric] b Let_def toFixed2_def)
qed

section \<open>Printing and reading back\<close>

lemma toFixed2_Fin:
  "\<bar>q\<bar> < 10 ^ 21 \<Longrightarrow>
   toFixed2 (Fin q) = (if q < 0 then ''-'' else []) @ fixed_string \<lfloor>\<bar>q\<bar> * 100 + 1 / 2\<rfloor>"
  by (simp add: toFixed2_def Let_def)

lemma digits_val_snoc: "digits_val (ds @ [c]) = 10 * digits_val ds + (of_char c - 48)"
  by (simp add: digits_val_def)

lemma digit_char:
  fixes d :: int
  assumes "0 \<le> d" "d < 10"
  shows "is_digit (char_of (48 + d))" "of_char (char_of (48 + d) :: char) = 48 + d"
proof -
  have "d = 0 \<or> d = 1 \<or> d = 2 \<or> d = 3 \<or> d = 4 \<or> d = 5 \<or> d = 6 \<or> d = 7 \<or> d = 8 \<or> d = 9"
    using assms by arith
  then have d: "d \<in> {0, 1, 2, 3, 4, 5, 6, 7, 8, 9}" by simp
  show "is_digit (char_of (48 + d))" using d by (auto simp: is_digit_def)
  show "of_char (char_of (48 + d) :: char) = 48 + d" using d by auto
qed

lemma is_digit_plain:
  assumes "is_digit c"
  shows "\<not> is_exp_mark c" "c \<noteq> CHR ''.''" "c \<noteq> CHR ''-''" "c \<noteq> CHR ''+''" "c \<noteq> CHR ''N''"
    "c \<noteq> CHR ''I''" "in_alphabet c"
  using assms by (auto simp: is_digit_def is_exp_mark_def in_alphabet_def)

lemma digits_props:
  assumes "0 \<le> n"
  shows "list_all is_digit (digits n) \<and> digits n \<noteq> [] \<and> digits_val (digits n) = n"
  using assms
proof (induction n rule: digits.induct)
  case (1 n)
  show ?case
  proof (cases "n < 10")
    case True
    then show ?thesis
      using 1(2) digit_char(1,2)[of n]
      by (subst (1 2 3) digits.simps) (simp add: digits_val_def)
  next
    case False
    then have IH: "list_all is_digit (digits (n div 10))" "digits_val (digits (n div 10)) = n div 10"
      using 1 by auto
    have d: "0 \<le> n mod 10" "n mod 10 < 10" by auto
    show ?thesis
      using False IH digit_char(1,2)[OF d]
      by (subst (1 2 3) digits.simps) (simp add: digits_val_snoc)
  qed
qed

lemma length_digits:
  assumes "0 \<le> n" "n < 10 ^ k" "0 < k"
  shows "length (digits n) \<le> k"
  using assms
proof (induction n arbitrary: k rule: digits.induct)
  case (1 n)
  show ?case
  proof (cases "n < 10")
    case True
    then show ?thesis using 1(4) by (subst digits.simps) simp
  next
    case False
    obtain j where k: "k = Suc j" using 1(4) by (cases k) auto
    have j: "0 < j" using False 1(3) k by (cases j) auto
    have "n div 10 < 10 ^ j" using 1(3) k by (simp add: div_less_iff_less_mult)
    then have "length (digits (n div 10)) \<le> j"
      using 1(1)[of j] False 1(2) j by simp
    then show ?thesis using False k by (subst digits.simps) simp
  qed
qed

lemma digits_val_zeros: "digits_val (replicate k CHR ''0'' @ ds) = digits_val ds"
  by (induction k) (simp_all add: digits_val_def)

lemma significant_le: "significant ds \<le> length ds"
proof -
  have "significant ds \<le> length (rev (dropWhile (\<lambda>c. c = CHR ''0'') ds))"
    unfolding significant_def by (rule length_dropWhile_le)
  also have "\<dots> \<le> length ds" by (simp add: length_dropWhile_le)
  finally show ?thesis .
qed

lemma parse_mantissa_fixed:
  assumes "list_all is_digit ip" "list_all is_digit fp" "ip \<noteq> []"
  shows "parse_mantissa (ip @ CHR ''.'' # fp) = Some (ip @ fp, length fp)"
proof -
  have nd: "\<forall>c \<in> set ip. c \<noteq> CHR ''.''"
    using assms(1) is_digit_plain(2) by (auto simp: list_all_iff)
  have t: "takeWhile (\<lambda>c. c \<noteq> CHR ''.'') (ip @ CHR ''.'' # fp) = ip"
    using nd by (simp add: takeWhile_append2)
  have d: "dropWhile (\<lambda>c. c \<noteq> CHR ''.'') (ip @ CHR ''.'' # fp) = CHR ''.'' # fp"
    using nd by (simp add: dropWhile_append2)
  show ?thesis using assms by (simp add: parse_mantissa_def t d)
qed

lemma StringToNumber_fixed:
  assumes "0 \<le> n" "n < 10 ^ 20"
  shows "StringToNumber ((if neg then ''-'' else []) @ fixed_string n)
         = Some (if n = 0 then zero_of neg
                 else round64 ((if neg then - 1 else 1) * of_int n / 100))"
proof -
  define m where "m = digits n"
  define m' where "m' = replicate (3 - length m) CHR ''0'' @ m"
  define ip where "ip = take (length m' - 2) m'"
  define fp where "fp = drop (length m' - 2) m'"
  define s where "s = ip @ CHR ''.'' # fp"
  have m: "list_all is_digit m" "digits_val m = n" "length m \<le> 20"
    using digits_props[OF assms(1)] length_digits[OF assms(1,2)] by (simp_all add: m_def)
  have z: "is_digit CHR ''0''" by (simp add: is_digit_def)
  have m': "list_all is_digit m'" "digits_val m' = n" "3 \<le> length m'" "length m' \<le> 20"
    using m z by (auto simp: m'_def digits_val_zeros list_all_iff)
  have parts: "ip @ fp = m'" "length fp = 2" "ip \<noteq> []"
    using m'(3) by (auto simp: ip_def fp_def)
  have dig: "list_all is_digit ip" "list_all is_digit fp"
    using m'(1) parts(1) by (metis list_all_append)+
  have "fixed_string n = take (length m' - 2) m' @ ''.'' @ drop (length m' - 2) m'"
    unfolding fixed_string_def Let_def m_def[symmetric] m'_def[symmetric] ..
  then have fs: "fixed_string n = s" by (simp add: s_def ip_def fp_def)
  obtain c cs where ip: "ip = c # cs" using parts(3) by (cases ip) auto
  have c: "is_digit c" using dig(1) ip by simp
  have sdig: "\<forall>x \<in> set s. is_digit x \<or> x = CHR ''.''"
    using dig by (auto simp: s_def list_all_iff)
  have noexp: "\<forall>x \<in> set s. \<not> is_exp_mark x"
    using sdig is_digit_plain(1) by (auto simp: is_exp_mark_def)
  have tk: "takeWhile (\<lambda>c. \<not> is_exp_mark c) s = s" "dropWhile (\<lambda>c. \<not> is_exp_mark c) s = []"
    using noexp by simp_all
  have alph: "list_all in_alphabet s"
    using sdig is_digit_plain(7) by (auto simp: list_all_iff in_alphabet_def)
  have pm: "parse_mantissa s = Some (m', 2)"
    using parse_mantissa_fixed[OF dig parts(3)] parts(1,2) by (simp add: s_def)
  have sg: "significant m' \<le> 20" using significant_le[of m'] m'(4) by simp
  have sp: "split_sign s = (False, s)"
    using is_digit_plain(3,4)[OF c] by (simp add: split_sign_def s_def ip)
  have ne: "s \<noteq> ''NaN''" "s \<noteq> ''Infinity''" "s \<noteq> []"
    using is_digit_plain(5,6)[OF c] by (auto simp: s_def ip)
  have p10: "power10 (- 2) = 1 / 100" by (simp add: power10_def)
  have body: "StringToNumber (sg @ s) =
      Some (if n = 0 then zero_of neg else round64 ((if neg then - 1 else 1) * of_int n / 100))"
    if "split_sign (sg @ s) = (neg, s)" "list_all in_alphabet (sg @ s)" "sg @ s \<noteq> ''NaN''" for sg
    unfolding StringToNumber_def that(1) prod.case Let_def tk pm parse_exponent_def
    using that(2,3) ne sg m'(2) by (simp add: p10)
  show ?thesis
  proof (cases neg)
    case True
    have "split_sign (''-'' @ s) = (neg, s)" using True by (simp add: split_sign_def)
    moreover have "list_all in_alphabet (''-'' @ s)" using alph by (simp add: in_alphabet_def)
    ultimately show ?thesis using body[of "''-''"] True by (simp add: fs)
  next
    case False
    then show ?thesis using body[of "[]"] sp alph ne by (simp add: fs)
  qed
qed

section \<open>The error of rounding\<close>

lemma val_fneg [simp]: "val (fneg x) = - val x"
  by (cases x) (auto simp: fneg_def val_def)

lemma is_inf_fneg [simp]: "is_inf (fneg x) \<longleftrightarrow> is_inf x"
  by (cases x) (auto simp: fneg_def is_inf_def)

text \<open>
  The error of rounding: relative \<open>2^-53\<close>, or half the least spacing \<open>2^-1074\<close> in the
  subnormal range; a value of magnitude up to \<open>2^1023\<close> does not overflow.
\<close>

lemma round64_half_spacing:
  assumes "0 < q" "q \<le> pow2 1023"
  shows "\<not> is_inf (round64 q) \<and> \<bar>val (round64 q) - q\<bar> \<le> pow2 (max (expo q) (- 1022) - 52) / 2"
proof -
  define e where "e = expo q"
  define u where "u = max e (- 1022) - 52"
  define k where "k = round_even (q / pow2 u)"
  define m where "m = of_int k * pow2 u"
  have r: "round64 q = (if pow2 1024 \<le> m then PInf else if m = 0 then Fin 0 else Fin m)"
    using assms(1) by (simp add: round64_pos e_def u_def k_def m_def Let_def)
  have up: "0 < pow2 u" by (rule pow2_pos)
  have "\<bar>of_int k - q / pow2 u\<bar> \<le> 1 / 2" unfolding k_def by (rule round_even_err)
  then have "\<bar>of_int k - q / pow2 u\<bar> * pow2 u \<le> 1 / 2 * pow2 u"
    using up by (intro mult_right_mono) simp_all
  moreover have "\<bar>of_int k - q / pow2 u\<bar> * pow2 u = \<bar>m - q\<bar>"
  proof -
    have "(of_int k - q / pow2 u) * pow2 u = m - q" using up by (simp add: m_def field_simps)
    then have "\<bar>m - q\<bar> = \<bar>of_int k - q / pow2 u\<bar> * \<bar>pow2 u\<bar>" by (simp add: abs_mult[symmetric])
    then show ?thesis using up by simp
  qed
  ultimately have err: "\<bar>m - q\<bar> \<le> pow2 u / 2" by simp
  have e1023: "e \<le> 1023"
  proof (rule ccontr)
    assume "\<not> e \<le> 1023"
    then have "pow2 1024 \<le> pow2 e" by (intro pow2_mono) simp
    moreover have "pow2 1023 < pow2 1024" by (intro pow2_strict_mono) simp
    ultimately show False using expo_bounds(1)[OF assms(1)] assms(2) by (simp add: e_def)
  qed
  have "pow2 u \<le> pow2 971" using e1023 by (intro pow2_mono) (simp add: u_def)
  moreover have "m - q \<le> pow2 u / 2" using err by linarith
  ultimately have "m \<le> pow2 1023 + pow2 971 / 2" using assms(2) by linarith
  also have "\<dots> < pow2 1024" by (simp add: pow2_def)
  finally have "\<not> pow2 1024 \<le> m" by simp
  then have "\<not> is_inf (round64 q)" "val (round64 q) = m"
    by (simp_all add: r is_inf_def val_def)
  then show ?thesis using err by (simp add: u_def e_def)
qed

lemma pow2_half: "pow2 j / 2 = pow2 (j - 1)"
  using pow2_diff[of j 1] by (simp add: pow2_def)

lemma round64_error_pos:
  assumes "0 < q" "q \<le> pow2 1023"
  shows "\<not> is_inf (round64 q) \<and> \<bar>val (round64 q) - q\<bar> \<le> q * pow2 (- 53) + pow2 (- 1075)"
proof -
  define u where "u = max (expo q) (- 1022) - 52"
  have ubound: "pow2 u / 2 \<le> q * pow2 (- 53) + pow2 (- 1075)"
  proof (cases "- 1022 \<le> expo q")
    case True
    then have "pow2 u / 2 = pow2 (expo q) * pow2 (- 53)"
      using pow2_add[of "expo q" "- 53"] by (simp add: pow2_half u_def max_def)
    also have "\<dots> \<le> q * pow2 (- 53)"
      using expo_bounds(1)[OF assms(1)] pow2_pos[of "- 53"] by simp
    finally show ?thesis using pow2_pos[of "- 1075"] by linarith
  next
    case False
    then have "pow2 u / 2 = pow2 (- 1075)" by (simp add: pow2_half u_def max_def)
    moreover have "0 \<le> q * pow2 (- 53)" using assms(1) pow2_pos[of "- 53"] by simp
    ultimately show ?thesis by linarith
  qed
  show ?thesis using round64_half_spacing[OF assms] ubound unfolding u_def by linarith
qed

text \<open>In the normal range the error is relative.\<close>

lemma round64_error_pos_normal:
  assumes "pow2 (- 1022) \<le> q" "q \<le> pow2 1023"
  shows "\<not> is_inf (round64 q) \<and> \<bar>val (round64 q) - q\<bar> \<le> q * pow2 (- 53)"
proof -
  have q: "0 < q" using assms(1) pow2_pos[of "- 1022"] by linarith
  have e: "- 1022 \<le> expo q"
  proof (rule ccontr)
    assume "\<not> - 1022 \<le> expo q"
    then have "pow2 (expo q + 1) \<le> pow2 (- 1022)" by (intro pow2_mono) simp
    then show False using expo_bounds(2)[OF q] assms(1) by linarith
  qed
  then have "pow2 (max (expo q) (- 1022) - 52) / 2 = pow2 (expo q) * pow2 (- 53)"
    using pow2_add[of "expo q" "- 53"] by (simp add: pow2_half max_def)
  also have "\<dots> \<le> q * pow2 (- 53)"
    using expo_bounds(1)[OF q] pow2_pos[of "- 53"] by simp
  finally show ?thesis using round64_half_spacing[OF q assms(2)] by linarith
qed

lemma round64_error:
  assumes "\<bar>q\<bar> \<le> pow2 1023"
  shows "\<not> is_inf (round64 q) \<and> \<bar>val (round64 q) - q\<bar> \<le> \<bar>q\<bar> * pow2 (- 53) + pow2 (- 1075)"
proof -
  consider "q = 0" | "0 < q" | "q < 0" by linarith
  then show ?thesis
  proof cases
    case 1
    then show ?thesis using pow2_pos[of "- 1075"] by (simp add: round64_def is_inf_def val_def less_imp_le)
  next
    case 2
    then show ?thesis using round64_error_pos[of q] assms by simp
  next
    case 3
    then have n: "round64 q = fneg (round64 (- q))" using round64_uminus[of "- q"] by simp
    have "\<not> is_inf (round64 (- q)) \<and> \<bar>val (round64 (- q)) - (- q)\<bar> \<le> (- q) * pow2 (- 53) + pow2 (- 1075)"
      using round64_error_pos[of "- q"] 3 assms by simp
    moreover have "\<bar>val (fneg (round64 (- q))) - q\<bar> = \<bar>val (round64 (- q)) - (- q)\<bar>"
      by simp
    moreover have "\<bar>q\<bar> = - q" using 3 by simp
    ultimately show ?thesis unfolding n by (simp del: val_fneg)
  qed
qed

lemma round64_error_normal:
  assumes "pow2 (- 1022) \<le> \<bar>q\<bar>" "\<bar>q\<bar> \<le> pow2 1023"
  shows "\<not> is_inf (round64 q) \<and> \<bar>val (round64 q) - q\<bar> \<le> \<bar>q\<bar> * pow2 (- 53)"
proof (cases "0 < q")
  case True
  then show ?thesis using round64_error_pos_normal[of q] assms by simp
next
  case False
  then have q: "q < 0" using assms(1) pow2_pos[of "- 1022"] by (cases "q = 0") auto
  then have n: "round64 q = fneg (round64 (- q))" using round64_uminus[of "- q"] by simp
  have "\<not> is_inf (round64 (- q)) \<and> \<bar>val (round64 (- q)) - (- q)\<bar> \<le> (- q) * pow2 (- 53)"
    using round64_error_pos_normal[of "- q"] q assms by simp
  moreover have "\<bar>val (fneg (round64 (- q))) - q\<bar> = \<bar>val (round64 (- q)) - (- q)\<bar>"
    by simp
  moreover have "\<bar>q\<bar> = - q" using q by simp
  ultimately show ?thesis unfolding n by (simp del: val_fneg)
qed

lemma finite_number_cases:
  "finite_number x \<longleftrightarrow> x = NZero \<or> (\<exists>q. x = Fin q)"
  by (cases x) (auto simp: finite_number_def is_NaN_def is_inf_def)

lemma finite_round64: "\<not> is_inf (round64 q) \<Longrightarrow> finite_number (round64 q)"
  by (simp add: finite_number_def)

lemma fmul_finite:
  assumes "finite_number x" "finite_number y" "\<bar>val x * val y\<bar> \<le> pow2 1023"
  shows "finite_number (fmul x y)"
    and "\<bar>val (fmul x y) - val x * val y\<bar> \<le> \<bar>val x * val y\<bar> * pow2 (- 53) + pow2 (- 1075)"
proof -
  have h: "0 < pow2 (- 1075)" by (rule pow2_pos)
  have "finite_number (fmul x y) \<and>
        \<bar>val (fmul x y) - val x * val y\<bar> \<le> \<bar>val x * val y\<bar> * pow2 (- 53) + pow2 (- 1075)"
  proof (cases "is_zero x \<or> is_zero y")
    case True
    then have "val x * val y = 0" by (cases x; cases y) (auto simp: is_zero_def val_def)
    moreover have "fmul x y = zero_of (neg_sign x \<noteq> neg_sign y)"
      using True assms(1,2) by (auto simp: fmul_def finite_number_def)
    ultimately show ?thesis using h
      by (auto simp: zero_of_def finite_number_def is_NaN_def is_inf_def val_def)
  next
    case False
    then have "fmul x y = round64 (val x * val y)"
      using assms(1,2) by (auto simp: fmul_def finite_number_def)
    then show ?thesis using round64_error[OF assms(3)] by (simp add: finite_number_def)
  qed
  then show "finite_number (fmul x y)"
    and "\<bar>val (fmul x y) - val x * val y\<bar> \<le> \<bar>val x * val y\<bar> * pow2 (- 53) + pow2 (- 1075)"
    by simp_all
qed

lemma fdiv_finite:
  assumes "finite_number x" "finite_number y" "\<not> is_zero y" "\<bar>val x / val y\<bar> \<le> pow2 1023"
  shows "finite_number (fdiv x y)"
    and "\<bar>val (fdiv x y) - val x / val y\<bar> \<le> \<bar>val x / val y\<bar> * pow2 (- 53) + pow2 (- 1075)"
proof -
  have h: "0 < pow2 (- 1075)" by (rule pow2_pos)
  have "finite_number (fdiv x y) \<and>
        \<bar>val (fdiv x y) - val x / val y\<bar> \<le> \<bar>val x / val y\<bar> * pow2 (- 53) + pow2 (- 1075)"
  proof (cases "is_zero x")
    case True
    then have "val x / val y = 0" by (cases x) (auto simp: is_zero_def val_def)
    moreover have "fdiv x y = zero_of (neg_sign x \<noteq> neg_sign y)"
      using True assms(1,2,3) by (auto simp: fdiv_def finite_number_def)
    ultimately show ?thesis using h
      by (auto simp: zero_of_def finite_number_def is_NaN_def is_inf_def val_def)
  next
    case False
    then have "fdiv x y = round64 (val x / val y)"
      using assms(1,2,3) by (auto simp: fdiv_def finite_number_def)
    then show ?thesis using round64_error[OF assms(4)] by (simp add: finite_number_def)
  qed
  then show "finite_number (fdiv x y)"
    and "\<bar>val (fdiv x y) - val x / val y\<bar> \<le> \<bar>val x / val y\<bar> * pow2 (- 53) + pow2 (- 1075)"
    by simp_all
qed

lemma fixed_string_0: "fixed_string 0 = ''0.00''"
  by code_simp

lemma floor_half: "\<lfloor>1 / 2 :: rat\<rfloor> = 0"
  by (rule floor_unique) simp_all

lemma toFixed2_finite:
  assumes "finite_number x" "\<bar>val x\<bar> < 10 ^ 21"
  shows "toFixed2 x = (if val x < 0 then ''-'' else []) @ fixed_string \<lfloor>\<bar>val x\<bar> * 100 + 1 / 2\<rfloor>"
  using assms(1) unfolding finite_number_cases
proof (elim disjE exE)
  assume "x = NZero"
  then show ?thesis by (simp add: toFixed2_def val_def fixed_string_0 floor_half)
next
  fix q assume "x = Fin q"
  then show ?thesis using assms(2) toFixed2_Fin[of q] by (simp add: val_def)
qed

text \<open>Printing with two decimals and reading the string back moves a value by little.\<close>

lemma StringToNumber_toFixed2:
  assumes "finite_number x" "\<bar>val x\<bar> \<le> 10 ^ 18 - 1"
  shows "\<exists>f. StringToNumber (toFixed2 x) = Some f \<and> finite_number f
           \<and> \<bar>val f - val x\<bar> \<le> 1 / 200 + (\<bar>val x\<bar> + 1 / 200) * pow2 (- 53) + pow2 (- 1075)"
proof -
  define a where "a = \<bar>val x\<bar>"
  define n where "n = \<lfloor>a * 100 + 1 / 2\<rfloor>"
  define t where "t = (if val x < 0 then - 1 else 1) * of_int n / (100 :: rat)"
  have a: "0 \<le> a" "a \<le> 10 ^ 18 - 1" using assms(2) by (simp_all add: a_def)
  have fl: "of_int n \<le> a * 100 + 1 / 2" "a * 100 + 1 / 2 < of_int n + 1"
    unfolding n_def by linarith+
  have n0: "0 \<le> n" unfolding n_def using a(1) by simp
  have a': "a \<le> 999999999999999999" using a(2) by simp
  have "(of_int n :: rat) < 100000000000000000000" using fl(1) a' by linarith
  then have "n < 100000000000000000000" by simp
  then have n17: "n < 10 ^ 20" by simp
  have s: "toFixed2 x = (if val x < 0 then ''-'' else []) @ fixed_string n"
    using toFixed2_finite[OF assms(1)] a(2) by (simp add: a_def n_def)
  define f where "f = (if n = 0 then zero_of (val x < 0) else round64 t)"
  have p: "StringToNumber (toFixed2 x) = Some f"
    unfolding s f_def t_def using StringToNumber_fixed[OF n0 n17, of "val x < 0"] by simp
  have tn: "\<bar>t\<bar> = of_int n / 100" using n0 by (simp add: t_def)
  have tx: "\<bar>t - val x\<bar> \<le> 1 / 200"
  proof (cases "val x < 0")
    case True
    then have "t = - (of_int n / 100)" "a = - val x" by (simp_all add: t_def a_def)
    then show ?thesis using fl by linarith
  next
    case False
    then have "t = of_int n / 100" "a = val x" by (simp_all add: t_def a_def)
    then show ?thesis using fl by linarith
  qed
  have tb: "\<bar>t\<bar> \<le> a + 1 / 200" using fl(1) by (simp add: tn)
  have "\<bar>t\<bar> \<le> pow2 1023" using tb a(2) by (simp add: pow2_def)
  from round64_error[OF this]
  have r: "\<not> is_inf (round64 t)" "\<bar>val (round64 t) - t\<bar> \<le> \<bar>t\<bar> * pow2 (- 53) + pow2 (- 1075)"
    by simp_all
  have h: "0 < pow2 (- 1075)" by (rule pow2_pos)
  define E where "E = (a + 1 / 200) * pow2 (- 53)"
  have E: "0 \<le> E" "\<bar>t\<bar> * pow2 (- 53) \<le> E"
    using a(1) tb pow2_pos[of "- 53"] by (simp_all add: E_def mult_right_mono)
  have "finite_number f \<and> \<bar>val f - val x\<bar> \<le> 1 / 200 + E + pow2 (- 1075)"
  proof (cases "n = 0")
    case True
    then have "t = 0" by (simp add: t_def)
    then have "\<bar>val x\<bar> \<le> 1 / 200" using tx by simp
    moreover have "val f = 0" "finite_number f"
      using True by (auto simp: f_def zero_of_def val_def finite_number_def is_NaN_def is_inf_def)
    ultimately show ?thesis using h E(1) by simp
  next
    case False
    then have f: "f = round64 t" by (simp add: f_def)
    have "\<bar>val (round64 t) - val x\<bar> \<le> 1 / 200 + E + pow2 (- 1075)"
      using r(2) tx E(2) by linarith
    then show ?thesis using r(1) unfolding f by (simp add: finite_number_def)
  qed
  then show ?thesis using p unfolding E_def a_def by blast
qed

lemma tiny: "0 < pow2 (- 1075)" "pow2 (- 1075) \<le> 1 / 1000000"
proof -
  show "0 < pow2 (- 1075)" by (rule pow2_pos)
  have "pow2 (- 1075) \<le> pow2 (- 20)" by (rule pow2_mono) simp
  also have "\<dots> \<le> 1 / 1000000" by (simp add: pow2_def)
  finally show "pow2 (- 1075) \<le> 1 / 1000000" .
qed

lemma unit_roundoff: "0 < pow2 (- 53)" "pow2 (- 53) \<le> 1 / 1000" "8 * pow2 (- 53) = 1 / 2 ^ 50"
  by (simp_all add: pow2_def)

text \<open>
  The errors of the three steps add up; \<open>G\<close> is the rounding to hundredths divided by
  the growth factor, \<open>H\<close> bounds the errors in the subnormal range.
\<close>

lemma linear_part:
  fixes P G H Ge Ae Be d1e d2e d1 d2 d3 X :: rat
  assumes "0 \<le> G" "0 \<le> H" "H \<le> G / 5000" "0 \<le> P"
    and "d1 \<le> P + H" "d2 \<le> G + Ae + Ge + H" "d3 \<le> Be + H"
    and "Ae \<le> P + d1e" "Be \<le> Ae + d2e" "d1e \<le> (P + H) / 1000"
    and "d2e \<le> (G + Ae + Ge + H) / 1000" "Ge \<le> G / 1000" "X \<le> d3 + d2 + d1"
  shows "X \<le> 6 / 5 * G + 8 * P"
  using assms by (simp add: field_simps)

lemma round_trip_arith:
  fixes PA AA BB G H d1 d2 d3 e X :: rat
  assumes e: "0 < e" "e \<le> 1 / 1000" and G: "0 \<le> G" and H: "0 \<le> H" "H \<le> G / 5000"
    and nn: "0 \<le> PA" "0 \<le> AA"
    and d: "d1 \<le> PA * e + H" "d2 \<le> G + (AA + G) * e + H" "d3 \<le> BB * e + H"
    and t: "AA \<le> PA + d1" "BB \<le> AA + d2" "X \<le> d3 + d2 + d1"
  shows "X \<le> 6 / 5 * G + PA * (8 * e)"
proof -
  define P where "P = PA * e"
  define R where "R = G + AA * e + G * e + H"
  have P: "0 \<le> P" using nn(1) e(1) by (simp add: P_def)
  have Ae: "0 \<le> AA * e" using nn(2) e(1) by simp
  have Ge0: "0 \<le> G * e" using G e(1) by simp
  have R: "0 \<le> R" using Ae Ge0 G H(1) by (simp add: R_def)
  have a1: "d1 \<le> P + H" using d(1) by (simp add: P_def)
  have a2: "d2 \<le> R" using d(2) by (simp add: R_def algebra_simps)
  have "d1 * e \<le> (P + H) * e" using a1 e(1) by (simp add: mult_right_mono)
  also have "\<dots> \<le> (P + H) * (1 / 1000)" using e(2) P H(1) by (intro mult_left_mono) simp_all
  finally have d1e: "d1 * e \<le> (P + H) / 1000" by simp
  have "AA * e \<le> (PA + d1) * e" using t(1) e(1) by (simp add: mult_right_mono)
  then have AAe: "AA * e \<le> P + d1 * e" by (simp add: P_def algebra_simps)
  have "d2 * e \<le> R * e" using a2 e(1) by (simp add: mult_right_mono)
  also have "\<dots> \<le> R * (1 / 1000)" using e(2) R by (intro mult_left_mono) simp_all
  finally have d2e: "d2 * e \<le> R / 1000" by simp
  have "BB * e \<le> (AA + d2) * e" using t(2) e(1) by (simp add: mult_right_mono)
  then have BBe: "BB * e \<le> AA * e + d2 * e" by (simp add: algebra_simps)
  have "G * e \<le> G * (1 / 1000)" using e(2) G by (intro mult_left_mono) simp_all
  then have Ge: "G * e \<le> G / 1000" by simp
  have "X \<le> 6 / 5 * G + 8 * P"
    by (rule linear_part[OF G H P a1 a2[unfolded R_def] d(3) AAe BBe d1e d2e[unfolded R_def] Ge t(3)])
  then show ?thesis by (simp add: P_def algebra_simps)
qed

lemma round64_pow2: "- 1074 \<le> j \<Longrightarrow> j \<le> 1023 \<Longrightarrow> round64 (pow2 j) = Fin (pow2 j)"
proof -
  assume j: "- 1074 \<le> j" "j \<le> 1023"
  have "pow2 j < pow2 1024" using j(2) by (intro pow2_strict_mono) simp
  then have "round64 (of_int 1 * pow2 j) = Fin (of_int 1 * pow2 j)"
    using j(1) by (intro round64_exact_gen) simp_all
  then show ?thesis by simp
qed

lemma toFixed2_small: "toFixed2 (Fin (1 / 1024)) = ''0.00''"
  by code_simp

lemma StringToNumber_zero: "StringToNumber ''0.00'' = Some (Fin 0)"
  using StringToNumber_fixed[of 0 False] by (simp add: fixed_string_0 zero_of_def)

lemma half_to_the_tenth:
  "Math_pow pow_integral (fadd (lit 1) (Fin (- 1 / 2))) (Fin 10) = Fin (1 / 1024)"
proof -
  have "round64 (1 / 2) = Fin (1 / 2)" using round64_pow2[of "- 1"] by (simp add: pow2_def)
  then have b: "fadd (lit 1) (Fin (- 1 / 2)) = Fin (1 / 2)"
    by (simp add: fadd_def is_NaN_def is_inf_def val_def)
  have "round64 (1 / 1024) = Fin (1 / 1024)" using round64_pow2[of "- 10"] by (simp add: pow2_def)
  then have "pow_integral (Fin (1 / 2)) (Fin 10) = Fin (1 / 1024)"
    by (simp add: pow_integral_def is_integral_def val_def power_one_over)
  then show ?thesis
    unfolding b by (simp add: Math_pow_def is_NaN_def is_zero_def flt_def val_def)
qed

lemma half_to_the_first:
  "Math_pow pow_integral (fadd (lit 1) (Fin (- 1 / 2))) (Fin 1) = Fin (1 / 2)"
proof -
  have h: "round64 (1 / 2) = Fin (1 / 2)" using round64_pow2[of "- 1"] by (simp add: pow2_def)
  then have b: "fadd (lit 1) (Fin (- 1 / 2)) = Fin (1 / 2)"
    by (simp add: fadd_def is_NaN_def is_inf_def val_def)
  have "pow_integral (Fin (1 / 2)) (Fin 1) = Fin (1 / 2)"
    using h by (simp add: pow_integral_def is_integral_def val_def)
  then show ?thesis
    unfolding b by (simp add: Math_pow_def is_NaN_def is_zero_def flt_def val_def)
qed

lemma growth_at_8_percent:
  "Math_pow pow_integral (fadd (lit 1) (lit (8 / 100))) (Fin 5)
   = Fin (3308632689580745 / 2251799813685248)"
proof -
  have l: "round64 (2 / 25) = Fin (of_int 5764607523034235 * pow2 (- 4 - 52))"
    by (rule round64_eqI) (simp_all add: pow2_def)
  have s: "round64 (1 + 5764607523034235 / 72057594037927936) = Fin (of_int 4863887597560136 * pow2 (0 - 52))"
    by (rule round64_eqI) (simp_all add: pow2_def)
  have lv: "lit (2 / 25) = Fin (5764607523034235 / 72057594037927936)"
    using l by (simp add: lit_def pow2_def)
  have b: "fadd (lit 1) (lit (8 / 100)) = Fin (607985949695017 / 562949953421312)"
    using s by (simp add: lv fadd_Fin pow2_def)
  have p: "round64 ((607985949695017 / 562949953421312) ^ 5) = Fin (of_int 6617265379161490 * pow2 (0 - 52))"
    by (rule round64_eqI) (simp_all add: pow2_def power_divide)
  have "pow_integral (Fin (607985949695017 / 562949953421312)) (Fin 5)
        = Fin (3308632689580745 / 2251799813685248)"
    using p by (simp add: pow_integral_def is_integral_def val_def pow2_def)
  then show ?thesis
    unfolding b by (simp add: Math_pow_def is_NaN_def is_zero_def flt_def val_def)
qed

section \<open>Relative error\<close>

lemma approx_rel_nonneg: "approx_rel e x X \<Longrightarrow> 0 \<le> e * \<bar>X\<bar>"
  unfolding approx_rel_def by (meson abs_ge_zero order_trans)

lemma approx_rel_mono: "approx_rel a x X \<Longrightarrow> a \<le> b \<Longrightarrow> approx_rel b x X"
  unfolding approx_rel_def
  by (meson abs_ge_zero mult_right_mono order_trans)

lemma approx_rel_refl: "0 \<le> e \<Longrightarrow> approx_rel e x x"
  by (simp add: approx_rel_def)

lemma approx_rel_abs:
  assumes "approx_rel e x X"
  shows "\<bar>x\<bar> \<le> (1 + e) * \<bar>X\<bar>" and "(1 - e) * \<bar>X\<bar> \<le> \<bar>x\<bar>"
proof -
  have "\<bar>x - X\<bar> \<le> e * \<bar>X\<bar>" using assms by (simp add: approx_rel_def)
  then have "\<bar>x\<bar> \<le> \<bar>X\<bar> + e * \<bar>X\<bar>" "\<bar>X\<bar> - e * \<bar>X\<bar> \<le> \<bar>x\<bar>" by linarith+
  then show "\<bar>x\<bar> \<le> (1 + e) * \<bar>X\<bar>" and "(1 - e) * \<bar>X\<bar> \<le> \<bar>x\<bar>"
    by (simp_all add: algebra_simps)
qed

lemma approx_rel_trans:
  assumes "approx_rel a x y" "approx_rel b y z" "0 \<le> a"
  shows "approx_rel (a + b + a * b) x z"
proof -
  have 1: "\<bar>x - y\<bar> \<le> a * \<bar>y\<bar>" "\<bar>y - z\<bar> \<le> b * \<bar>z\<bar>"
    using assms by (simp_all add: approx_rel_def)
  have "a * \<bar>y\<bar> \<le> a * ((1 + b) * \<bar>z\<bar>)"
    using approx_rel_abs(1)[OF assms(2)] assms(3) by (rule mult_left_mono)
  then have "\<bar>x - z\<bar> \<le> a * ((1 + b) * \<bar>z\<bar>) + b * \<bar>z\<bar>" using 1 by linarith
  then show ?thesis by (simp add: approx_rel_def algebra_simps)
qed

lemma approx_rel_mult:
  assumes "approx_rel a x X" "approx_rel b y Y"
  shows "approx_rel (a + b + a * b) (x * y) (X * Y)"
proof -
  have 1: "\<bar>x - X\<bar> \<le> a * \<bar>X\<bar>" "\<bar>y - Y\<bar> \<le> b * \<bar>Y\<bar>"
    using assms by (simp_all add: approx_rel_def)
  have e: "x * y - X * Y = (x - X) * Y + X * (y - Y) + (x - X) * (y - Y)"
    by (simp add: algebra_simps)
  have "\<bar>(x - X) * Y\<bar> \<le> a * \<bar>X\<bar> * \<bar>Y\<bar>"
    using 1(1) by (simp add: abs_mult mult_right_mono)
  moreover have "\<bar>X * (y - Y)\<bar> \<le> \<bar>X\<bar> * (b * \<bar>Y\<bar>)"
    using 1(2) by (simp add: abs_mult mult_left_mono)
  moreover have "\<bar>(x - X) * (y - Y)\<bar> \<le> (a * \<bar>X\<bar>) * (b * \<bar>Y\<bar>)"
    unfolding abs_mult using 1 approx_rel_nonneg[OF assms(1)] by (intro mult_mono) simp_all
  ultimately have "\<bar>x * y - X * Y\<bar> \<le> a * \<bar>X\<bar> * \<bar>Y\<bar> + \<bar>X\<bar> * (b * \<bar>Y\<bar>) + (a * \<bar>X\<bar>) * (b * \<bar>Y\<bar>)"
    unfolding e by linarith
  then show ?thesis by (simp add: approx_rel_def abs_mult algebra_simps)
qed

lemma approx_rel_divide:
  assumes "approx_rel a x X" "approx_rel b y Y" "b < 1" "Y \<noteq> 0"
  shows "approx_rel ((a + b) / (1 - b)) (x / y) (X / Y)"
proof -
  have 1: "\<bar>x - X\<bar> \<le> a * \<bar>X\<bar>" "\<bar>y - Y\<bar> \<le> b * \<bar>Y\<bar>"
    using assms by (simp_all add: approx_rel_def)
  have Y: "0 < \<bar>Y\<bar>" using assms(4) by simp
  have ylow: "(1 - b) * \<bar>Y\<bar> \<le> \<bar>y\<bar>" by (rule approx_rel_abs(2)[OF assms(2)])
  have pos: "0 < (1 - b) * \<bar>Y\<bar>" using Y assms(3) by simp
  then have y: "0 < \<bar>y\<bar>" using ylow by linarith
  then have y0: "y \<noteq> 0" by auto
  have e: "x / y - X / Y = ((x - X) * Y - X * (y - Y)) / (y * Y)"
    using y0 assms(4) by (simp add: field_simps)
  have "\<bar>(x - X) * Y\<bar> \<le> a * \<bar>X\<bar> * \<bar>Y\<bar>"
    using 1(1) by (simp add: abs_mult mult_right_mono)
  moreover have "\<bar>X * (y - Y)\<bar> \<le> \<bar>X\<bar> * (b * \<bar>Y\<bar>)"
    using 1(2) by (simp add: abs_mult mult_left_mono)
  ultimately have num: "\<bar>(x - X) * Y - X * (y - Y)\<bar> \<le> (a + b) * \<bar>X\<bar> * \<bar>Y\<bar>"
    by (simp add: algebra_simps) linarith
  have nn: "0 \<le> (a + b) * \<bar>X\<bar> * \<bar>Y\<bar>" using num by linarith
  have "\<bar>x / y - X / Y\<bar> = \<bar>(x - X) * Y - X * (y - Y)\<bar> / (\<bar>y\<bar> * \<bar>Y\<bar>)"
    unfolding e by (simp add: abs_mult)
  also have "\<dots> \<le> ((a + b) * \<bar>X\<bar> * \<bar>Y\<bar>) / (\<bar>y\<bar> * \<bar>Y\<bar>)"
    using num y Y by (intro divide_right_mono) simp_all
  also have "\<dots> \<le> ((a + b) * \<bar>X\<bar> * \<bar>Y\<bar>) / (((1 - b) * \<bar>Y\<bar>) * \<bar>Y\<bar>)"
  proof (rule frac_le)
    show "0 \<le> (a + b) * \<bar>X\<bar> * \<bar>Y\<bar>" by (rule nn)
    show "0 < (1 - b) * \<bar>Y\<bar> * \<bar>Y\<bar>" using pos Y by simp
    show "(1 - b) * \<bar>Y\<bar> * \<bar>Y\<bar> \<le> \<bar>y\<bar> * \<bar>Y\<bar>" using ylow by (intro mult_right_mono) simp_all
  qed simp
  also have "\<dots> = (a + b) / (1 - b) * \<bar>X / Y\<bar>"
    using Y assms(3) by (simp add: field_simps)
  finally show ?thesis by (simp add: approx_rel_def)
qed

section \<open>Magnitudes\<close>

lemma in_range_nonzero: "in_range k x \<Longrightarrow> x \<noteq> 0"
proof -
  assume "in_range k x"
  moreover have "0 < 1 / (2 :: real) ^ k" by simp
  ultimately have "0 < \<bar>x\<bar>" unfolding in_range_def by linarith
  then show ?thesis by simp
qed

lemma in_range_mono: "in_range j x \<Longrightarrow> j \<le> k \<Longrightarrow> in_range k x"
proof -
  assume a: "in_range j x" "j \<le> k"
  have "(2 :: real) ^ j \<le> 2 ^ k" using a(2) by (simp add: power_increasing)
  moreover from this have "1 / (2 :: real) ^ k \<le> 1 / 2 ^ j" by (simp add: frac_le)
  ultimately show ?thesis using a(1) unfolding in_range_def by linarith
qed

lemma in_range_mult:
  assumes "in_range j x" "in_range k y"
  shows "in_range (j + k) (x * y)"
proof -
  have x: "1 / 2 ^ j \<le> \<bar>x\<bar>" "\<bar>x\<bar> \<le> 2 ^ j" and y: "1 / 2 ^ k \<le> \<bar>y\<bar>" "\<bar>y\<bar> \<le> 2 ^ k"
    using assms by (simp_all add: in_range_def)
  have "\<bar>x\<bar> * \<bar>y\<bar> \<le> 2 ^ j * 2 ^ k" using x(2) y(2) by (intro mult_mono) simp_all
  moreover have "(1 / 2 ^ j) * (1 / 2 ^ k) \<le> \<bar>x\<bar> * \<bar>y\<bar>"
    using x(1) y(1) by (intro mult_mono) simp_all
  ultimately show ?thesis by (simp add: in_range_def abs_mult power_add)
qed

lemma in_range_inverse:
  assumes "in_range k y"
  shows "in_range k (1 / y)"
proof -
  have y: "1 / 2 ^ k \<le> \<bar>y\<bar>" "\<bar>y\<bar> \<le> 2 ^ k" using assms by (simp_all add: in_range_def)
  have p: "0 < \<bar>y\<bar>" using y(1) by (smt (verit) divide_pos_pos zero_less_power zero_less_one)
  have "1 / \<bar>y\<bar> \<le> 2 ^ k" using y(1) p by (simp add: field_simps)
  moreover have "1 / 2 ^ k \<le> 1 / \<bar>y\<bar>" using y(2) p by (simp add: frac_le)
  ultimately show ?thesis by (simp add: in_range_def abs_divide)
qed

lemma in_range_divide:
  assumes "in_range j x" "in_range k y"
  shows "in_range (j + k) (x / y)"
  using in_range_mult[OF assms(1) in_range_inverse[OF assms(2)]] by simp

lemma in_range_near:
  assumes "in_range k X" "approx_rel e x X" "e \<le> 1 / 2"
  shows "in_range (Suc k) x"
proof -
  have X: "1 / 2 ^ k \<le> \<bar>X\<bar>" "\<bar>X\<bar> \<le> 2 ^ k" using assms(1) by (simp_all add: in_range_def)
  have "\<bar>x - X\<bar> \<le> e * \<bar>X\<bar>" using assms(2) by (simp add: approx_rel_def)
  moreover have "e * \<bar>X\<bar> \<le> 1 / 2 * \<bar>X\<bar>" using assms(3) by (intro mult_right_mono) simp_all
  ultimately have x: "\<bar>x\<bar> \<le> 2 * \<bar>X\<bar>" "\<bar>X\<bar> / 2 \<le> \<bar>x\<bar>" by linarith+
  have "(1 / 2 ^ k) / 2 \<le> \<bar>X\<bar> / 2" using X(1) by simp
  then have "1 / 2 ^ Suc k \<le> \<bar>x\<bar>" using x(2) by simp
  moreover have "\<bar>x\<bar> \<le> 2 ^ Suc k" using x(1) X(2) by simp
  ultimately show ?thesis by (simp add: in_range_def)
qed


section \<open>Rounding over the reals\<close>

lemma real_val_Fin [simp]: "real_val (Fin q) = of_rat q"
  by (simp add: real_val_def val_def)

lemma real_val_fneg [simp]: "real_val (fneg x) = - real_val x"
  by (simp add: real_val_def of_rat_minus)

lemma finite_number_fneg [simp]: "finite_number (fneg x) \<longleftrightarrow> finite_number x"
  by (simp add: finite_number_def)

lemma of_rat_pow2:
  "real_of_rat (pow2 (- 53)) = eps64" "real_of_rat (pow2 (- 1075)) = tiny64"
  "real_of_rat (pow2 1023) = 2 ^ 1023" "real_of_rat (pow2 (- 1022)) = 1 / 2 ^ 1022"
  by (simp_all add: pow2_def eps64_def tiny64_def of_rat_divide of_rat_power)

lemma eps64_bounds: "0 < eps64" "eps64 \<le> 1 / 1000"
  by (simp_all add: eps64_def)

lemma tiny64_pos: "0 < tiny64"
  by (simp add: tiny64_def)

lemma real_le_of_rat: "\<bar>a - b\<bar> \<le> c \<Longrightarrow> \<bar>real_of_rat a - real_of_rat b\<bar> \<le> real_of_rat c"
  by (metis abs_of_rat of_rat_diff of_rat_less_eq)

lemma round64_rel:
  assumes "in_range 1022 (real_of_rat q)"
  shows "finite_number (round64 q)" and "approx_rel eps64 (real_val (round64 q)) (real_of_rat q)"
proof -
  have "real_of_rat (pow2 (- 1022)) \<le> real_of_rat \<bar>q\<bar>" "real_of_rat \<bar>q\<bar> \<le> 2 ^ 1022"
    using assms by (simp_all add: in_range_def of_rat_pow2 abs_of_rat)
  moreover have "(2 :: real) ^ 1022 \<le> real_of_rat (pow2 1023)"
    by (simp add: of_rat_pow2)
  ultimately have "real_of_rat (pow2 (- 1022)) \<le> real_of_rat \<bar>q\<bar>"
      "real_of_rat \<bar>q\<bar> \<le> real_of_rat (pow2 1023)"
    by linarith+
  then have r: "pow2 (- 1022) \<le> \<bar>q\<bar>" "\<bar>q\<bar> \<le> pow2 1023"
    by (simp_all only: of_rat_less_eq)
  from round64_error_normal[OF this]
  have e: "\<not> is_inf (round64 q)" "\<bar>val (round64 q) - q\<bar> \<le> \<bar>q\<bar> * pow2 (- 53)" by simp_all
  show "finite_number (round64 q)" using e(1) by (rule finite_round64)
  have "\<bar>real_of_rat (val (round64 q)) - real_of_rat q\<bar> \<le> real_of_rat (\<bar>q\<bar> * pow2 (- 53))"
    using e(2) by (rule real_le_of_rat)
  then show "approx_rel eps64 (real_val (round64 q)) (real_of_rat q)"
    by (simp add: approx_rel_def real_val_def of_rat_mult of_rat_pow2 abs_of_rat mult.commute)
qed

lemma round64_abs:
  assumes "\<bar>real_of_rat q\<bar> \<le> 2 ^ 1023"
  shows "finite_number (round64 q)"
    and "\<bar>real_val (round64 q) - real_of_rat q\<bar> \<le> eps64 * \<bar>real_of_rat q\<bar> + tiny64"
proof -
  have "real_of_rat \<bar>q\<bar> \<le> real_of_rat (pow2 1023)"
    using assms by (simp add: of_rat_pow2 abs_of_rat)
  then have "\<bar>q\<bar> \<le> pow2 1023" by (simp only: of_rat_less_eq)
  from round64_error[OF this]
  have e: "\<not> is_inf (round64 q)" "\<bar>val (round64 q) - q\<bar> \<le> \<bar>q\<bar> * pow2 (- 53) + pow2 (- 1075)"
    by simp_all
  show "finite_number (round64 q)" using e(1) by (rule finite_round64)
  have "\<bar>real_of_rat (val (round64 q)) - real_of_rat q\<bar>
        \<le> real_of_rat (\<bar>q\<bar> * pow2 (- 53) + pow2 (- 1075))"
    using e(2) by (rule real_le_of_rat)
  then show "\<bar>real_val (round64 q) - real_of_rat q\<bar> \<le> eps64 * \<bar>real_of_rat q\<bar> + tiny64"
    by (simp add: real_val_def of_rat_mult of_rat_add of_rat_pow2 abs_of_rat mult.commute)
qed

lemma real_val_zero_iff: "finite_number x \<Longrightarrow> real_val x = 0 \<longleftrightarrow> is_zero x"
  by (cases x) (auto simp: real_val_def val_def is_zero_def finite_number_def is_NaN_def is_inf_def)

lemma fmul_round:
  assumes "finite_number x" "finite_number y" "real_val x * real_val y \<noteq> 0"
  shows "fmul x y = round64 (val x * val y)"
proof -
  have "\<not> is_zero x" "\<not> is_zero y"
    using assms real_val_zero_iff by auto
  then show ?thesis using assms(1,2) by (auto simp: fmul_def finite_number_def)
qed

lemma fdiv_round:
  assumes "finite_number x" "finite_number y" "real_val x / real_val y \<noteq> 0"
  shows "fdiv x y = round64 (val x / val y)"
proof -
  have "\<not> is_zero x" "\<not> is_zero y"
    using assms real_val_zero_iff by auto
  then show ?thesis using assms(1,2) by (auto simp: fdiv_def finite_number_def)
qed

lemma fmul_rel:
  assumes "finite_number x" "finite_number y" "in_range 1022 (real_val x * real_val y)"
  shows "finite_number (fmul x y)"
    and "approx_rel eps64 (real_val (fmul x y)) (real_val x * real_val y)"
proof -
  have m: "fmul x y = round64 (val x * val y)"
    using assms(1,2) in_range_nonzero[OF assms(3)] by (rule fmul_round)
  have r: "in_range 1022 (real_of_rat (val x * val y))"
    using assms(3) by (simp add: real_val_def of_rat_mult)
  show "finite_number (fmul x y)" unfolding m by (rule round64_rel(1)[OF r])
  show "approx_rel eps64 (real_val (fmul x y)) (real_val x * real_val y)"
    using round64_rel(2)[OF r] unfolding m by (simp add: real_val_def of_rat_mult)
qed

lemma fdiv_rel:
  assumes "finite_number x" "finite_number y" "in_range 1022 (real_val x / real_val y)"
  shows "finite_number (fdiv x y)"
    and "approx_rel eps64 (real_val (fdiv x y)) (real_val x / real_val y)"
proof -
  have m: "fdiv x y = round64 (val x / val y)"
    using assms(1,2) in_range_nonzero[OF assms(3)] by (rule fdiv_round)
  have r: "in_range 1022 (real_of_rat (val x / val y))"
    using assms(3) by (simp add: real_val_def of_rat_divide)
  show "finite_number (fdiv x y)" unfolding m by (rule round64_rel(1)[OF r])
  show "approx_rel eps64 (real_val (fdiv x y)) (real_val x / real_val y)"
    using round64_rel(2)[OF r] unfolding m by (simp add: real_val_def of_rat_divide)
qed

lemma fadd_cases:
  assumes "finite_number x" "finite_number y"
  shows "(fadd x y = y \<and> real_val x = 0) \<or> (fadd x y = x \<and> real_val y = 0)
         \<or> fadd x y = round64 (val x + val y)"
  using assms
  by (cases x; cases y)
     (auto simp: fadd_def finite_number_def is_NaN_def is_inf_def real_val_def val_def)

lemma fadd_rel:
  assumes "finite_number x" "finite_number y" "in_range 1022 (real_val x + real_val y)"
  shows "finite_number (fadd x y)"
    and "approx_rel eps64 (real_val (fadd x y)) (real_val x + real_val y)"
proof -
  have r: "in_range 1022 (real_of_rat (val x + val y))"
    using assms(3) by (simp add: real_val_def of_rat_add)
  have e: "0 \<le> eps64" using eps64_bounds(1) by simp
  have "finite_number (fadd x y) \<and> approx_rel eps64 (real_val (fadd x y)) (real_val x + real_val y)"
    using fadd_cases[OF assms(1,2)]
  proof (elim disjE conjE)
    assume "fadd x y = y" "real_val x = 0"
    then show ?thesis using assms(2) approx_rel_refl[OF e] by simp
  next
    assume "fadd x y = x" "real_val y = 0"
    then show ?thesis using assms(1) approx_rel_refl[OF e] by simp
  next
    assume m: "fadd x y = round64 (val x + val y)"
    show ?thesis
      using round64_rel[OF r] unfolding m by (simp add: real_val_def of_rat_add)
  qed
  then show "finite_number (fadd x y)"
    and "approx_rel eps64 (real_val (fadd x y)) (real_val x + real_val y)"
    by simp_all
qed

lemma fsub_rel:
  assumes "finite_number x" "finite_number y" "in_range 1022 (real_val x - real_val y)"
  shows "finite_number (fsub x y)"
    and "approx_rel eps64 (real_val (fsub x y)) (real_val x - real_val y)"
  using fadd_rel[of x "fneg y"] assms by (simp_all add: fsub_def)

lemma fadd_abs:
  assumes "finite_number x" "finite_number y" "\<bar>real_val x + real_val y\<bar> \<le> 2 ^ 1023"
  shows "finite_number (fadd x y)"
    and "\<bar>real_val (fadd x y) - (real_val x + real_val y)\<bar>
           \<le> eps64 * \<bar>real_val x + real_val y\<bar> + tiny64"
proof -
  have r: "\<bar>real_of_rat (val x + val y)\<bar> \<le> 2 ^ 1023"
    using assms(3) by (simp add: real_val_def of_rat_add)
  have nn: "0 \<le> eps64 * \<bar>real_val x + real_val y\<bar> + tiny64"
    using eps64_bounds(1) tiny64_pos by (simp add: add_nonneg_nonneg)
  have "finite_number (fadd x y) \<and> \<bar>real_val (fadd x y) - (real_val x + real_val y)\<bar>
           \<le> eps64 * \<bar>real_val x + real_val y\<bar> + tiny64"
    using fadd_cases[OF assms(1,2)]
  proof (elim disjE conjE)
    assume "fadd x y = y" "real_val x = 0"
    then show ?thesis using assms(2) nn by simp
  next
    assume "fadd x y = x" "real_val y = 0"
    then show ?thesis using assms(1) nn by simp
  next
    assume m: "fadd x y = round64 (val x + val y)"
    show ?thesis
      using round64_abs[OF r] unfolding m by (simp add: real_val_def of_rat_add)
  qed
  then show "finite_number (fadd x y)"
    and "\<bar>real_val (fadd x y) - (real_val x + real_val y)\<bar>
           \<le> eps64 * \<bar>real_val x + real_val y\<bar> + tiny64"
    by simp_all
qed

lemma fsub_abs:
  assumes "finite_number x" "finite_number y" "\<bar>real_val x - real_val y\<bar> \<le> 2 ^ 1023"
  shows "finite_number (fsub x y)"
    and "\<bar>real_val (fsub x y) - (real_val x - real_val y)\<bar>
           \<le> eps64 * \<bar>real_val x - real_val y\<bar> + tiny64"
  using fadd_abs[of x "fneg y"] assms by (simp_all add: fsub_def)

lemma fmul_abs:
  assumes "finite_number x" "finite_number y" "\<bar>real_val x * real_val y\<bar> \<le> 2 ^ 1023"
  shows "finite_number (fmul x y)"
    and "\<bar>real_val (fmul x y) - real_val x * real_val y\<bar>
           \<le> eps64 * \<bar>real_val x * real_val y\<bar> + tiny64"
proof -
  have "\<bar>real_of_rat (val x * val y)\<bar> \<le> 2 ^ 1023"
    using assms(3) by (simp add: real_val_def of_rat_mult)
  then have "real_of_rat \<bar>val x * val y\<bar> \<le> real_of_rat (pow2 1023)"
    by (simp only: abs_of_rat of_rat_pow2)
  then have "\<bar>val x * val y\<bar> \<le> pow2 1023" by (simp only: of_rat_less_eq)
  from fmul_finite[OF assms(1,2) this]
  have e: "finite_number (fmul x y)"
    "\<bar>val (fmul x y) - val x * val y\<bar> \<le> \<bar>val x * val y\<bar> * pow2 (- 53) + pow2 (- 1075)"
    by simp_all
  show "finite_number (fmul x y)" by (rule e(1))
  have "\<bar>real_of_rat (val (fmul x y)) - real_of_rat (val x * val y)\<bar>
        \<le> real_of_rat (\<bar>val x * val y\<bar> * pow2 (- 53) + pow2 (- 1075))"
    using e(2) by (rule real_le_of_rat)
  moreover have "real_of_rat \<bar>val x * val y\<bar> = \<bar>real_of_rat (val x) * real_of_rat (val y)\<bar>"
    by (metis abs_of_rat of_rat_mult)
  ultimately show "\<bar>real_val (fmul x y) - real_val x * real_val y\<bar>
           \<le> eps64 * \<bar>real_val x * real_val y\<bar> + tiny64"
    by (simp add: real_val_def of_rat_mult of_rat_add of_rat_pow2 mult.commute)
qed

lemma finite_number_Fin [simp]: "finite_number (Fin q)"
  by (simp add: finite_number_def is_NaN_def is_inf_def)

section \<open>The error of a product with the power\<close>

lemma product_bound:
  assumes "finite_number a"
    and "approx_rel e (real_of_rat w) W" "0 \<le> e" "e \<le> 1"
    and "\<bar>real_val a * W\<bar> \<le> 2 ^ 1022"
  shows "finite_number (fmul a (Fin w))"
    and "\<bar>real_val (fmul a (Fin w)) - real_val a * W\<bar>
           \<le> (e + 2 * eps64) * \<bar>real_val a * W\<bar> + tiny64"
proof -
  define X where "X = real_val a * W"
  define x where "x = real_val a * real_of_rat w"
  have fw: "finite_number (Fin w)" by (simp add: finite_number_def is_NaN_def is_inf_def)
  have "approx_rel (0 + e + 0 * e) x X"
    unfolding x_def X_def by (intro approx_rel_mult approx_rel_refl assms(2)) simp
  then have c: "approx_rel e x X" by simp
  have xb: "\<bar>x\<bar> \<le> (1 + e) * \<bar>X\<bar>" by (rule approx_rel_abs(1)[OF c])
  have "(1 + e) * \<bar>X\<bar> \<le> 2 * \<bar>X\<bar>" using assms(4) by (intro mult_right_mono) simp_all
  then have x2: "\<bar>x\<bar> \<le> 2 * \<bar>X\<bar>" using xb by linarith
  then have "\<bar>real_val a * real_val (Fin w)\<bar> \<le> 2 ^ 1023"
    using assms(5) by (simp add: x_def X_def)
  from fmul_abs[OF assms(1) fw this]
  have m: "finite_number (fmul a (Fin w))"
    "\<bar>real_val (fmul a (Fin w)) - x\<bar> \<le> eps64 * \<bar>x\<bar> + tiny64"
    by (simp_all add: x_def)
  show "finite_number (fmul a (Fin w))" by (rule m(1))
  have "eps64 * \<bar>x\<bar> \<le> eps64 * (2 * \<bar>X\<bar>)"
    using x2 eps64_bounds(1) by (intro mult_left_mono) simp_all
  moreover have "\<bar>x - X\<bar> \<le> e * \<bar>X\<bar>" using c by (simp add: approx_rel_def)
  ultimately have "\<bar>real_val (fmul a (Fin w)) - X\<bar> \<le> eps64 * (2 * \<bar>X\<bar>) + tiny64 + e * \<bar>X\<bar>"
    using m(2) by linarith
  then show "\<bar>real_val (fmul a (Fin w)) - real_val a * W\<bar>
           \<le> (e + 2 * eps64) * \<bar>real_val a * W\<bar> + tiny64"
    by (simp add: X_def algebra_simps)
qed

lemma lumpSumReturns_bound:
  assumes "finite_number a"
    and "Math_pow approx (fadd (lit 1) r) y = Fin w"
    and "approx_rel e (real_of_rat w) ((1 + real_val r) powr real_val y)" "0 \<le> e" "e \<le> 1"
    and "\<bar>compound_formula (real_val a) (real_val r) (real_val y)\<bar> \<le> 2 ^ 1022"
  shows "\<exists>z. lumpSumReturns approx a y r = toFixed2 z \<and> finite_number z
           \<and> \<bar>real_val z - compound_formula (real_val a) (real_val r) (real_val y)\<bar>
               \<le> (e + 2 * eps64) * \<bar>compound_formula (real_val a) (real_val r) (real_val y)\<bar>
                  + tiny64"
proof -
  have "lumpSumReturns approx a y r = toFixed2 (fmul a (Fin w))"
    using assms(2) by (simp add: lumpSumReturns_def)
  then show ?thesis
    using product_bound[OF assms(1,3,4,5)] assms(6) unfolding compound_formula_def by blast
qed

lemma lumpSumReturnsWithInflation_bound:
  assumes "finite_number a"
    and "Math_pow approx (fsub (fadd (lit 1) r) (default_inflationRate i)) y = Fin w"
    and "approx_rel e (real_of_rat w)
           ((1 + (real_val r - real_val (default_inflationRate i))) powr real_val y)"
      "0 \<le> e" "e \<le> 1"
    and "\<bar>compound_formula (real_val a) (real_val r - real_val (default_inflationRate i))
            (real_val y)\<bar> \<le> 2 ^ 1022"
  shows "\<exists>z. lumpSumReturnsWithInflation approx a y r i = toFixed2 z \<and> finite_number z
           \<and> \<bar>real_val z - compound_formula (real_val a)
                   (real_val r - real_val (default_inflationRate i)) (real_val y)\<bar>
               \<le> (e + 2 * eps64) * \<bar>compound_formula (real_val a)
                   (real_val r - real_val (default_inflationRate i)) (real_val y)\<bar>
                  + tiny64"
proof -
  have "lumpSumReturnsWithInflation approx a y r i = toFixed2 (fmul a (Fin w))"
    using assms(2) by (simp add: lumpSumReturnsWithInflation_def)
  then show ?thesis
    using product_bound[OF assms(1,3,4,5)] assms(6) unfolding compound_formula_def by blast
qed


section \<open>Concrete calls of the compounding family\<close>

lemma lit_8_percent: "lit (8 / 100) = Fin (5764607523034235 / 72057594037927936)"
proof -
  have "round64 (2 / 25) = Fin (of_int 5764607523034235 * pow2 (- 4 - 52))"
    by (rule round64_eqI) (simp_all add: pow2_def)
  then show ?thesis by (simp add: lit_def pow2_def)
qed

lemma lit_6_percent: "lit (6 / 100) = Fin (1080863910568919 / 18014398509481984)"
proof -
  have "round64 (3 / 50) = Fin (of_int 8646911284551352 * pow2 (- 5 - 52))"
    by (rule round64_eqI) (simp_all add: pow2_def)
  then show ?thesis by (simp add: lit_def pow2_def)
qed

lemma base_8_percent:
  "fadd (lit 1) (lit (8 / 100)) = Fin (607985949695017 / 562949953421312)"
proof -
  have "round64 (1 + 5764607523034235 / 72057594037927936)
        = Fin (of_int 4863887597560136 * pow2 (0 - 52))"
    by (rule round64_eqI) (simp_all add: pow2_def)
  then show ?thesis unfolding lit_8_percent by (simp add: fadd_Fin pow2_def)
qed

lemma base_2_percent:
  "fsub (fadd (lit 1) (lit (8 / 100))) (default_inflationRate None)
   = Fin (2296835809958953 / 2251799813685248)"
proof -
  have "round64 (607985949695017 / 562949953421312 - 1080863910568919 / 18014398509481984)
        = Fin (of_int 4593671619917906 * pow2 (0 - 52))"
    by (rule round64_eqI) (simp_all add: pow2_def)
  then show ?thesis
    unfolding base_8_percent default_inflationRate_def option.case lit_6_percent
    by (simp add: fsub_Fin pow2_def)
qed

lemma growth_at_2_percent:
  "Math_pow pow_integral (fsub (fadd (lit 1) (lit (8 / 100))) (default_inflationRate None)) (lit 5)
   = Fin (2486168946939219 / 2251799813685248)"
proof -
  have p: "round64 ((2296835809958953 / 2251799813685248) ^ 5)
           = Fin (of_int 4972337893878438 * pow2 (0 - 52))"
    by (rule round64_eqI) (simp_all add: pow2_def power_divide)
  have "pow_integral (Fin (2296835809958953 / 2251799813685248)) (Fin 5)
        = Fin (2486168946939219 / 2251799813685248)"
    using p by (simp add: pow_integral_def is_integral_def val_def pow2_def)
  then show ?thesis
    unfolding base_2_percent
    by (simp add: lit_numeral Math_pow_def is_NaN_def is_zero_def flt_def val_def)
qed

lemma lump_sum_8_percent:
  "fmul (lit 10000) (Fin (3308632689580745 / 2251799813685248))
   = Fin (8077716527296741 / 549755813888)"
proof -
  have "round64 (10000 * (3308632689580745 / 2251799813685248))
        = Fin (of_int 8077716527296741 * pow2 (13 - 52))"
    by (rule round64_eqI) (simp_all add: pow2_def)
  then show ?thesis by (simp add: lit_numeral fmul_Fin pow2_def)
qed

lemma lump_sum_2_percent:
  "fmul (lit 10000) (Fin (2486168946939219 / 2251799813685248))
   = Fin (379359275350833 / 34359738368)"
proof -
  have "round64 (10000 * (2486168946939219 / 2251799813685248))
        = Fin (of_int 6069748405613328 * pow2 (13 - 52))"
    by (rule round64_eqI) (simp_all add: pow2_def)
  then show ?thesis by (simp add: lit_numeral fmul_Fin pow2_def)
qed

lemma toFixed2_lump_8: "toFixed2 (Fin (8077716527296741 / 549755813888)) = ''14693.28''"
  by code_simp

lemma toFixed2_lump_2: "toFixed2 (Fin (379359275350833 / 34359738368)) = ''11040.81''"
  by code_simp

lemma lit_5: "lit 5 = Fin 5"
  by (simp add: lit_numeral)

lemma growth_at_8_percent_lit:
  "Math_pow pow_integral (fadd (lit 1) (lit (8 / 100))) (lit 5)
   = Fin (3308632689580745 / 2251799813685248)"
  unfolding lit_5 by (rule growth_at_8_percent)

lemma lumpSumReturns_example:
  "lumpSumReturns pow_integral (lit 10000) (lit 5) (lit (8 / 100)) = ''14693.28''"
  unfolding lumpSumReturns_def Let_def growth_at_8_percent_lit lump_sum_8_percent
  by (rule toFixed2_lump_8)

lemma lumpSumReturnsWithInflation_example:
  "lumpSumReturnsWithInflation pow_integral (lit 10000) (lit 5) (lit (8 / 100)) None = ''11040.81''"
  unfolding lumpSumReturnsWithInflation_def Let_def growth_at_2_percent lump_sum_2_percent
  by (rule toFixed2_lump_2)

lemma accurate_8_percent:
  "approx_rel (1 / 2 ^ 50) (real_of_rat (3308632689580745 / 2251799813685248))
     ((1 + real_val (lit (8 / 100))) powr real_val (lit 5))"
  unfolding lit_8_percent lit_5
  by (simp add: approx_rel_def of_rat_divide power_divide)

lemma accurate_2_percent:
  "approx_rel (1 / 2 ^ 50) (real_of_rat (2486168946939219 / 2251799813685248))
     ((1 + (real_val (lit (8 / 100)) - real_val (default_inflationRate None))) powr real_val (lit 5))"
  unfolding lit_8_percent lit_6_percent default_inflationRate_def option.case lit_5
  by (simp add: approx_rel_def of_rat_divide power_divide)

section \<open>The error of the loan and annuity formulas\<close>

lemma real_val_lit_1 [simp]: "real_val (lit 1) = 1"
  by simp

lemma eps64_value: "eps64 = 1 / 9007199254740992"
  by (simp add: eps64_def)

lemma growth_bound:
  assumes ag: "\<bar>real_of_rat w - W\<bar> \<le> e * \<bar>W - 1\<bar>" and rG: "in_range 200 (W - 1)"
    and e: "0 \<le> e" "e \<le> 1 / 8"
  shows "finite_number (fsub (Fin w) (lit 1))"
    and "approx_rel (e + 2 * eps64) (real_val (fsub (Fin w) (lit 1))) (W - 1)"
proof -
  have a: "approx_rel e (real_of_rat w - 1) (W - 1)" using ag by (simp add: approx_rel_def)
  have "in_range (Suc 200) (real_of_rat w - 1)"
    using rG a by (rule in_range_near) (use e in simp)
  then have r: "in_range 1022 (real_val (Fin w) - real_val (lit 1))"
    using in_range_mono by fastforce
  have f1: "finite_number (lit 1)" by simp
  from fsub_rel[OF finite_number_Fin f1 r]
  have d: "finite_number (fsub (Fin w) (lit 1))"
    "approx_rel eps64 (real_val (fsub (Fin w) (lit 1))) (real_of_rat w - 1)"
    by simp_all
  show "finite_number (fsub (Fin w) (lit 1))" by (rule d(1))
  have "approx_rel (eps64 + e + eps64 * e) (real_val (fsub (Fin w) (lit 1))) (W - 1)"
    using d(2) a by (rule approx_rel_trans) (use eps64_bounds in simp)
  moreover have "eps64 + e + eps64 * e \<le> e + 2 * eps64"
    using e unfolding eps64_value by simp
  ultimately show "approx_rel (e + 2 * eps64) (real_val (fsub (Fin w) (lit 1))) (W - 1)"
    by (rule approx_rel_mono)
qed


lemma step_mult:
  assumes fx: "finite_number x" and fy: "finite_number y"
    and ax: "approx_rel a (real_val x) X" and ay: "approx_rel b (real_val y) Y"
    and rng: "in_range k (X * Y)" "k \<le> 1021"
    and small: "a + b + a * b \<le> c" "c \<le> 1 / 2" "0 \<le> c"
  shows "finite_number (fmul x y)"
    and "approx_rel (c + 2 * eps64) (real_val (fmul x y)) (X * Y)"
proof -
  have m: "approx_rel (a + b + a * b) (real_val x * real_val y) (X * Y)"
    using ax ay by (rule approx_rel_mult)
  then have m': "approx_rel c (real_val x * real_val y) (X * Y)"
    using small(1) by (rule approx_rel_mono)
  have "in_range (Suc k) (real_val x * real_val y)"
    using rng(1) m' by (rule in_range_near) (use small in simp)
  then have r: "in_range 1022 (real_val x * real_val y)"
    using in_range_mono rng(2) by fastforce
  from fmul_rel[OF fx fy r]
  have z: "finite_number (fmul x y)"
    "approx_rel eps64 (real_val (fmul x y)) (real_val x * real_val y)"
    by simp_all
  show "finite_number (fmul x y)" by (rule z(1))
  have "approx_rel (eps64 + c + eps64 * c) (real_val (fmul x y)) (X * Y)"
    using z(2) m' by (rule approx_rel_trans) (use eps64_bounds in simp)
  moreover have "eps64 + c + eps64 * c \<le> c + 2 * eps64"
    using small unfolding eps64_value by simp
  ultimately show "approx_rel (c + 2 * eps64) (real_val (fmul x y)) (X * Y)"
    by (rule approx_rel_mono)
qed

lemma step_divide:
  assumes fx: "finite_number x" and fy: "finite_number y"
    and ax: "approx_rel a (real_val x) X" and ay: "approx_rel b (real_val y) Y"
    and rng: "in_range k (X / Y)" "k \<le> 1021"
    and small: "b < 1" "(a + b) / (1 - b) \<le> c" "c \<le> 1 / 2" "0 \<le> c"
  shows "finite_number (fdiv x y)"
    and "approx_rel (c + 2 * eps64) (real_val (fdiv x y)) (X / Y)"
proof -
  have Y: "Y \<noteq> 0" using in_range_nonzero[OF rng(1)] by auto
  have q: "approx_rel ((a + b) / (1 - b)) (real_val x / real_val y) (X / Y)"
    using ax ay small(1) Y by (rule approx_rel_divide)
  with small(2) have q': "approx_rel c (real_val x / real_val y) (X / Y)"
    using approx_rel_mono by blast
  have "in_range (Suc k) (real_val x / real_val y)"
    using rng(1) q' small(3) by (rule in_range_near)
  then have r: "in_range 1022 (real_val x / real_val y)"
    using in_range_mono rng(2) by fastforce
  from fdiv_rel[OF fx fy r]
  have z: "finite_number (fdiv x y)"
    "approx_rel eps64 (real_val (fdiv x y)) (real_val x / real_val y)"
    by simp_all
  show "finite_number (fdiv x y)" by (rule z(1))
  have "approx_rel (eps64 + c + eps64 * c) (real_val (fdiv x y)) (X / Y)"
    using z(2) q' by (rule approx_rel_trans) (use eps64_bounds in simp)
  moreover have "eps64 + c + eps64 * c \<le> c + 2 * eps64"
    using small unfolding eps64_value by simp
  ultimately show "approx_rel (c + 2 * eps64) (real_val (fdiv x y)) (X / Y)"
    by (rule approx_rel_mono)
qed

lemma approx_rel_exact: "approx_rel 0 x x"
  by (simp add: approx_rel_def)

lemma emi_bound:
  assumes fP: "finite_number P" and fr: "finite_number r"
    and rP: "in_range 200 (real_val P)" and rr: "in_range 200 (real_val r)"
    and rW: "in_range 200 W" and rG: "in_range 200 (W - 1)"
    and aw: "approx_rel e (real_of_rat w) W" and ag: "\<bar>real_of_rat w - W\<bar> \<le> e * \<bar>W - 1\<bar>"
    and e: "0 \<le> e" "e \<le> 1 / 8"
  shows "finite_number (fdiv (fmul (fmul P r) (Fin w)) (fsub (Fin w) (lit 1)))"
    and "approx_rel (3 * e + 16 * eps64)
           (real_val (fdiv (fmul (fmul P r) (Fin w)) (fsub (Fin w) (lit 1))))
           (real_val P * real_val r * W / (W - 1))"
proof -
  have u: "0 < eps64" "eps64 \<le> 1 / 1000" by (rule eps64_bounds)+
  have r1: "in_range 400 (real_val P * real_val r)"
    using in_range_mult[OF rP rr] by simp
  have x1: "finite_number (fmul P r)"
    "approx_rel (0 + 2 * eps64) (real_val (fmul P r)) (real_val P * real_val r)"
  proof -
    note s = step_mult[where c = 0, OF fP fr approx_rel_exact approx_rel_exact r1]
    show "finite_number (fmul P r)" by (rule s(1)) simp_all
    show "approx_rel (0 + 2 * eps64) (real_val (fmul P r)) (real_val P * real_val r)"
      by (rule s(2)) simp_all
  qed
  have r2: "in_range 600 (real_val P * real_val r * W)"
    using in_range_mult[OF r1 rW] by simp
  have w': "approx_rel e (real_val (Fin w)) W" using aw by simp
  have x2: "finite_number (fmul (fmul P r) (Fin w))"
    "approx_rel (e + 3 * eps64 + 2 * eps64) (real_val (fmul (fmul P r) (Fin w)))
       (real_val P * real_val r * W)"
  proof -
    note s = step_mult[where c = "e + 3 * eps64", OF x1(1) finite_number_Fin x1(2) w' r2]
    show "finite_number (fmul (fmul P r) (Fin w))"
      by (rule s(1)) (use e in \<open>simp_all add: eps64_value\<close>)
    show "approx_rel (e + 3 * eps64 + 2 * eps64) (real_val (fmul (fmul P r) (Fin w)))
       (real_val P * real_val r * W)"
      by (rule s(2)) (use e in \<open>simp_all add: eps64_value\<close>)
  qed
  note d = growth_bound[OF ag rG e]
  have r3: "in_range 800 (real_val P * real_val r * W / (W - 1))"
    using in_range_divide[OF r2 rG] by simp
  have "(e + 3 * eps64 + 2 * eps64 + (e + 2 * eps64)) / (1 - (e + 2 * eps64))
        \<le> (e + 3 * eps64 + 2 * eps64 + (e + 2 * eps64)) / (6 / 7)"
    by (rule frac_le) (use e in \<open>simp_all add: eps64_value\<close>)
  also have "\<dots> = 7 / 6 * (e + 3 * eps64 + 2 * eps64 + (e + 2 * eps64))" by simp
  also have "\<dots> \<le> 3 * e + 14 * eps64" using e by (simp add: eps64_value)
  finally have quot: "(e + 3 * eps64 + 2 * eps64 + (e + 2 * eps64)) / (1 - (e + 2 * eps64))
        \<le> 3 * e + 14 * eps64" .
  have z: "finite_number (fdiv (fmul (fmul P r) (Fin w)) (fsub (Fin w) (lit 1)))"
    "approx_rel (3 * e + 14 * eps64 + 2 * eps64)
       (real_val (fdiv (fmul (fmul P r) (Fin w)) (fsub (Fin w) (lit 1))))
       (real_val P * real_val r * W / (W - 1))"
  proof -
    note s = step_divide[where c = "3 * e + 14 * eps64", OF x2(1) d(1) x2(2) d(2) r3 _ _ quot]
    show "finite_number (fdiv (fmul (fmul P r) (Fin w)) (fsub (Fin w) (lit 1)))"
      by (rule s(1)) (use e in \<open>simp_all add: eps64_value\<close>)
    show "approx_rel (3 * e + 14 * eps64 + 2 * eps64)
       (real_val (fdiv (fmul (fmul P r) (Fin w)) (fsub (Fin w) (lit 1))))
       (real_val P * real_val r * W / (W - 1))"
      by (rule s(2)) (use e in \<open>simp_all add: eps64_value\<close>)
  qed
  show "finite_number (fdiv (fmul (fmul P r) (Fin w)) (fsub (Fin w) (lit 1)))" by (rule z(1))
  show "approx_rel (3 * e + 16 * eps64)
           (real_val (fdiv (fmul (fmul P r) (Fin w)) (fsub (Fin w) (lit 1))))
           (real_val P * real_val r * W / (W - 1))"
    by (rule approx_rel_mono[OF z(2)]) simp
qed


lemma annuity_bound:
  assumes fp: "finite_number pmt" and fr: "finite_number r" and fs: "finite_number s"
    and rp: "in_range 200 (real_val pmt)" and rr: "in_range 200 (real_val r)"
    and rb: "in_range 200 (1 + real_val r)" and rG: "in_range 200 (W - 1)"
    and ag: "\<bar>real_of_rat w - W\<bar> \<le> e * \<bar>W - 1\<bar>"
    and e: "0 \<le> e" "e \<le> 1 / 8"
    and rs: "\<bar>real_val s\<bar> \<le> 2 ^ 1000"
  shows "finite_number
           (fsub (fmul (fmul pmt (fdiv (fsub (Fin w) (lit 1)) r)) (fadd (lit 1) r)) s)"
    and "\<bar>real_val (fsub (fmul (fmul pmt (fdiv (fsub (Fin w) (lit 1)) r)) (fadd (lit 1) r)) s)
          - (real_val pmt * ((W - 1) / real_val r) * (1 + real_val r) - real_val s)\<bar>
         \<le> (e + 16 * eps64)
              * (\<bar>real_val pmt * ((W - 1) / real_val r) * (1 + real_val r)\<bar> + \<bar>real_val s\<bar>)
            + tiny64"
proof -
  define d where "d = fsub (Fin w) (lit 1)"
  define q where "q = fdiv d r"
  define x where "x = fmul pmt q"
  define b where "b = fadd (lit 1) r"
  define FV where "FV = fmul x b"
  define F where "F = real_val pmt * ((W - 1) / real_val r) * (1 + real_val r)"
  note d = growth_bound[OF ag rG e, folded d_def]
  have r1: "in_range 400 ((W - 1) / real_val r)"
    using in_range_divide[OF rG rr] by simp
  have q: "finite_number q" "approx_rel (e + 2 * eps64 + 2 * eps64) (real_val q) ((W - 1) / real_val r)"
  proof -
    note s = step_divide[where c = "e + 2 * eps64", OF d(1) fr d(2) approx_rel_exact r1]
    show "finite_number q" unfolding q_def
      by (rule s(1)) (use e in \<open>simp_all add: eps64_value\<close>)
    show "approx_rel (e + 2 * eps64 + 2 * eps64) (real_val q) ((W - 1) / real_val r)"
      unfolding q_def by (rule s(2)) (use e in \<open>simp_all add: eps64_value\<close>)
  qed
  have r2: "in_range 600 (real_val pmt * ((W - 1) / real_val r))"
    using in_range_mult[OF rp r1] by simp
  have x: "finite_number x"
    "approx_rel (e + 4 * eps64 + 2 * eps64) (real_val x) (real_val pmt * ((W - 1) / real_val r))"
  proof -
    note s = step_mult[where c = "e + 4 * eps64", OF fp q(1) approx_rel_exact q(2) r2]
    show "finite_number x" unfolding x_def
      by (rule s(1)) (use e in \<open>simp_all add: eps64_value\<close>)
    show "approx_rel (e + 4 * eps64 + 2 * eps64) (real_val x)
            (real_val pmt * ((W - 1) / real_val r))"
      unfolding x_def by (rule s(2)) (use e in \<open>simp_all add: eps64_value\<close>)
  qed
  have "in_range 1022 (real_val (lit 1) + real_val r)"
    using in_range_mono[OF rb] by simp
  from fadd_rel[OF _ fr this]
  have b: "finite_number b" "approx_rel eps64 (real_val b) (1 + real_val r)"
    by (simp_all add: b_def)
  have r3: "in_range 800 F"
    unfolding F_def using in_range_mult[OF r2 rb] by simp
  have "(e + 4 * eps64 + 2 * eps64) * eps64 \<le> 1 * eps64"
    by (rule mult_right_mono) (use e in \<open>simp_all add: eps64_value\<close>)
  then have c: "e + 4 * eps64 + 2 * eps64 + eps64 + (e + 4 * eps64 + 2 * eps64) * eps64
                \<le> e + 8 * eps64"
    by linarith
  have FV: "finite_number FV" "approx_rel (e + 8 * eps64 + 2 * eps64) (real_val FV) F"
  proof -
    note s = step_mult[where c = "e + 8 * eps64", OF x(1) b(1) x(2) b(2) r3[unfolded F_def] _ c]
    show "finite_number FV" unfolding FV_def
      by (rule s(1)) (use e in \<open>simp_all add: eps64_value\<close>)
    show "approx_rel (e + 8 * eps64 + 2 * eps64) (real_val FV) F"
      unfolding FV_def F_def by (rule s(2)) (use e in \<open>simp_all add: eps64_value\<close>)
  qed
  have Fb: "\<bar>F\<bar> \<le> 2 ^ 800" using r3 by (simp add: in_range_def)
  have "approx_rel (e + 10 * eps64) (real_val FV) F"
    by (rule approx_rel_mono[OF FV(2)]) simp
  then have near: "\<bar>real_val FV - F\<bar> \<le> (e + 10 * eps64) * \<bar>F\<bar>"
    unfolding approx_rel_def .
  have "(e + 10 * eps64) * \<bar>F\<bar> \<le> 1 * \<bar>F\<bar>"
    by (rule mult_right_mono) (use e in \<open>simp_all add: eps64_value\<close>)
  then have FVb: "\<bar>real_val FV\<bar> \<le> 2 * \<bar>F\<bar>" using near by linarith
  have "\<bar>real_val FV - real_val s\<bar> \<le> 2 * 2 ^ 800 + 2 ^ 1000"
    using FVb Fb rs by linarith
  also have "\<dots> \<le> (2 :: real) ^ 1023" by simp
  finally have rng: "\<bar>real_val FV - real_val s\<bar> \<le> 2 ^ 1023" .
  from fsub_abs[OF FV(1) fs rng]
  have res: "finite_number (fsub FV s)"
    "\<bar>real_val (fsub FV s) - (real_val FV - real_val s)\<bar>
       \<le> eps64 * \<bar>real_val FV - real_val s\<bar> + tiny64"
    by simp_all
  have "eps64 * \<bar>real_val FV - real_val s\<bar> \<le> eps64 * (2 * \<bar>F\<bar> + \<bar>real_val s\<bar>)"
    by (rule mult_left_mono) (use FVb eps64_bounds in simp_all)
  then have "\<bar>real_val (fsub FV s) - (F - real_val s)\<bar>
       \<le> eps64 * (2 * \<bar>F\<bar> + \<bar>real_val s\<bar>) + tiny64 + (e + 10 * eps64) * \<bar>F\<bar>"
    using res(2) near by linarith
  also have "\<dots> \<le> (e + 16 * eps64) * (\<bar>F\<bar> + \<bar>real_val s\<bar>) + tiny64"
  proof -
    have "0 \<le> 4 * eps64 * \<bar>F\<bar> + (e + 15 * eps64) * \<bar>real_val s\<bar>"
      using e eps64_bounds by (intro add_nonneg_nonneg mult_nonneg_nonneg) simp_all
    then show ?thesis by (simp add: algebra_simps)
  qed
  finally have fin: "\<bar>real_val (fsub FV s) - (F - real_val s)\<bar>
       \<le> (e + 16 * eps64) * (\<bar>F\<bar> + \<bar>real_val s\<bar>) + tiny64" .
  show "finite_number
           (fsub (fmul (fmul pmt (fdiv (fsub (Fin w) (lit 1)) r)) (fadd (lit 1) r)) s)"
    using res(1) by (simp add: FV_def x_def q_def d_def b_def)
  show "\<bar>real_val (fsub (fmul (fmul pmt (fdiv (fsub (Fin w) (lit 1)) r)) (fadd (lit 1) r)) s)
          - (real_val pmt * ((W - 1) / real_val r) * (1 + real_val r) - real_val s)\<bar>
         \<le> (e + 16 * eps64)
              * (\<bar>real_val pmt * ((W - 1) / real_val r) * (1 + real_val r)\<bar> + \<bar>real_val s\<bar>)
            + tiny64"
    using fin by (simp add: FV_def x_def q_def d_def b_def F_def)
qed

section \<open>Concrete calls of the loan and retirement formulas\<close>

lemma emi_rate_year: "fdiv (Fin 10) (Fin 12) = Fin (7505999378950827 / 9007199254740992)"
proof -
  have "round64 (10 / 12) = Fin (of_int 7505999378950827 * pow2 (- 1 - 52))"
    by (rule round64_eqI) (simp_all add: pow2_def)
  then show ?thesis by (simp add: fdiv_Fin pow2_def)
qed

lemma emi_rate_month: "fdiv (Fin (7505999378950827 / 9007199254740992)) (Fin 100) = Fin (4803839602528529 / 576460752303423488)"
proof -
  have "round64 ((7505999378950827 / 9007199254740992) / 100) = Fin (of_int 4803839602528529 * pow2 (- 7 - 52))"
    by (rule round64_eqI) (simp_all add: pow2_def)
  then show ?thesis by (simp add: fdiv_Fin pow2_def)
qed

lemma emi_periods: "fmul (Fin 1) (Fin 12) = Fin 12"
proof -
  have "round64 (1 * 12) = Fin (of_int 6755399441055744 * pow2 (3 - 52))"
    by (rule round64_eqI) (simp_all add: pow2_def)
  then show ?thesis by (simp add: fmul_Fin pow2_def)
qed

lemma emi_base: "fadd (Fin 1) (Fin (4803839602528529 / 576460752303423488)) = Fin (2270564812132625 / 2251799813685248)"
proof -
  have "round64 (1 + (4803839602528529 / 576460752303423488)) = Fin (of_int 4541129624265250 * pow2 (0 - 52))"
    by (rule round64_eqI) (simp_all add: pow2_def)
  then show ?thesis by (simp add: fadd_Fin pow2_def)
qed

lemma emi_power: "Math_pow pow_integral (Fin (2270564812132625 / 2251799813685248)) (Fin 12) = Fin (2487592679439971 / 2251799813685248)"
proof -
  have p: "round64 ((2270564812132625 / 2251799813685248) ^ 12) = Fin (of_int 4975185358879942 * pow2 (0 - 52))"
    by (rule round64_eqI) (simp_all add: pow2_def power_divide)
  have "pow_integral (Fin (2270564812132625 / 2251799813685248)) (Fin 12) = Fin (2487592679439971 / 2251799813685248)"
    using p by (simp add: pow_integral_def is_integral_def val_def pow2_def)
  then show ?thesis
    by (simp add: Math_pow_def is_NaN_def is_zero_def flt_def val_def)
qed

lemma emi_interest: "fmul (Fin 100000) (Fin (4803839602528529 / 576460752303423488)) = Fin (7330077518506667 / 8796093022208)"
proof -
  have "round64 (100000 * (4803839602528529 / 576460752303423488)) = Fin (of_int 7330077518506667 * pow2 (9 - 52))"
    by (rule round64_eqI) (simp_all add: pow2_def)
  then show ?thesis by (simp add: fmul_Fin pow2_def)
qed

lemma emi_numerator: "fmul (Fin (7330077518506667 / 8796093022208)) (Fin (2487592679439971 / 2251799813685248)) = Fin (8097632420051989 / 8796093022208)"
proof -
  have "round64 ((7330077518506667 / 8796093022208) * (2487592679439971 / 2251799813685248)) = Fin (of_int 8097632420051989 * pow2 (9 - 52))"
    by (rule round64_eqI) (simp_all add: pow2_def)
  then show ?thesis by (simp add: fmul_Fin pow2_def)
qed

lemma emi_divisor: "fsub (Fin (2487592679439971 / 2251799813685248)) (Fin 1) = Fin (235792865754723 / 2251799813685248)"
proof -
  have "round64 ((2487592679439971 / 2251799813685248) - 1) = Fin (of_int 7545371704151136 * pow2 (- 4 - 52))"
    by (rule round64_eqI) (simp_all add: pow2_def)
  then show ?thesis by (simp add: fsub_Fin pow2_def)
qed

lemma emi_quotient: "fdiv (Fin (8097632420051989 / 8796093022208)) (Fin (235792865754723 / 2251799813685248)) = Fin (1208306753445493 / 137438953472)"
proof -
  have "round64 ((8097632420051989 / 8796093022208) / (235792865754723 / 2251799813685248)) = Fin (of_int 4833227013781972 * pow2 (13 - 52))"
    by (rule round64_eqI) (simp_all add: pow2_def)
  then show ?thesis by (simp add: fdiv_Fin pow2_def)
qed

lemma toFixed2_emi: "toFixed2 (Fin (1208306753445493 / 137438953472)) = ''8791.59''"
  by code_simp

lemma goal_rate_year: "fdiv (Fin 12) (Fin 12) = Fin 1"
proof -
  have "round64 (12 / 12) = Fin (of_int 4503599627370496 * pow2 (0 - 52))"
    by (rule round64_eqI) (simp_all add: pow2_def)
  then show ?thesis by (simp add: fdiv_Fin pow2_def)
qed

lemma goal_rate_month: "fdiv (Fin 1) (Fin 100) = Fin (5764607523034235 / 576460752303423488)"
proof -
  have "round64 (1 / 100) = Fin (of_int 5764607523034235 * pow2 (- 7 - 52))"
    by (rule round64_eqI) (simp_all add: pow2_def)
  then show ?thesis by (simp add: fdiv_Fin pow2_def)
qed

lemma goal_base: "fadd (Fin 1) (Fin (5764607523034235 / 576460752303423488)) = Fin (4548635623644201 / 4503599627370496)"
proof -
  have "round64 (1 + (5764607523034235 / 576460752303423488)) = Fin (of_int 4548635623644201 * pow2 (0 - 52))"
    by (rule round64_eqI) (simp_all add: pow2_def)
  then show ?thesis by (simp add: fadd_Fin pow2_def)
qed

lemma goal_power: "Math_pow pow_integral (Fin (4548635623644201 / 4503599627370496)) (Fin 12) = Fin (5074768785814087 / 4503599627370496)"
proof -
  have p: "round64 ((4548635623644201 / 4503599627370496) ^ 12) = Fin (of_int 5074768785814087 * pow2 (0 - 52))"
    by (rule round64_eqI) (simp_all add: pow2_def power_divide)
  have "pow_integral (Fin (4548635623644201 / 4503599627370496)) (Fin 12) = Fin (5074768785814087 / 4503599627370496)"
    using p by (simp add: pow_integral_def is_integral_def val_def pow2_def)
  then show ?thesis
    by (simp add: Math_pow_def is_NaN_def is_zero_def flt_def val_def)
qed

lemma goal_growth: "fsub (Fin (5074768785814087 / 4503599627370496)) (Fin 1) = Fin (571169158443591 / 4503599627370496)"
proof -
  have "round64 ((5074768785814087 / 4503599627370496) - 1) = Fin (of_int 4569353267548728 * pow2 (- 3 - 52))"
    by (rule round64_eqI) (simp_all add: pow2_def)
  then show ?thesis by (simp add: fsub_Fin pow2_def)
qed

lemma goal_factor: "fdiv (Fin (571169158443591 / 4503599627370496)) (Fin (5764607523034235 / 576460752303423488)) = Fin (7139614480544887 / 562949953421312)"
proof -
  have "round64 ((571169158443591 / 4503599627370496) / (5764607523034235 / 576460752303423488)) = Fin (of_int 7139614480544887 * pow2 (3 - 52))"
    by (rule round64_eqI) (simp_all add: pow2_def)
  then show ?thesis by (simp add: fdiv_Fin pow2_def)
qed

lemma goal_annuity: "fmul (Fin 2000) (Fin (7139614480544887 / 562949953421312)) = Fin (1743069941539279 / 68719476736)"
proof -
  have "round64 (2000 * (7139614480544887 / 562949953421312)) = Fin (of_int 6972279766157116 * pow2 (14 - 52))"
    by (rule round64_eqI) (simp_all add: pow2_def)
  then show ?thesis by (simp add: fmul_Fin pow2_def)
qed

lemma goal_future_value: "fmul (Fin (1743069941539279 / 68719476736)) (Fin (4548635623644201 / 4503599627370496)) = Fin (7042002563818687 / 274877906944)"
proof -
  have "round64 ((1743069941539279 / 68719476736) * (4548635623644201 / 4503599627370496)) = Fin (of_int 7042002563818687 * pow2 (14 - 52))"
    by (rule round64_eqI) (simp_all add: pow2_def)
  then show ?thesis by (simp add: fmul_Fin pow2_def)
qed

lemma goal_difference: "fsub (Fin (7042002563818687 / 274877906944)) (Fin 100000) = Fin (- 319465439540333 / 4294967296)"
proof -
  have "round64 (100000 - (7042002563818687 / 274877906944)) = Fin (of_int 5111447032645328 * pow2 (16 - 52))"
    by (rule round64_eqI) (simp_all add: pow2_def)
  moreover have "round64 (- (100000 - (7042002563818687 / 274877906944))) = fneg (round64 (100000 - (7042002563818687 / 274877906944)))"
    by (rule round64_uminus) simp
  ultimately show ?thesis by (simp add: fsub_Fin fneg_def pow2_def)
qed

lemma toFixed2_goal: "toFixed2 (Fin (- 319465439540333 / 4294967296)) = ''-74381.34''"
  by code_simp


lemma lit_values:
  "lit 10 = Fin 10" "lit 2000 = Fin 2000" "lit 100000 = Fin 100000"
  by (simp_all add: lit_numeral)

lemma calculateEMI_example:
  "calculateEMI pow_integral (lit 100000) (lit 10) (lit 1) = ''8791.59''"
  unfolding calculateEMI_def Let_def lit_values lit_1 lit_12 lit_100
    emi_rate_year emi_rate_month emi_periods emi_base emi_power emi_interest emi_numerator
    emi_divisor emi_quotient
  by (rule toFixed2_emi)

lemma retirementSavingsGoal_example:
  "retirementSavingsGoal pow_integral (lit 2000) (lit 1) (lit 12) (lit 100000) = ''-74381.34''"
  unfolding retirementSavingsGoal_def Let_def lit_values lit_1 lit_12 lit_100
    emi_periods goal_rate_year goal_rate_month goal_base goal_power goal_growth goal_factor
    goal_annuity goal_future_value goal_difference
  by (rule toFixed2_goal)

lemma emi_inputs:
  "fdiv (fdiv (lit 10) (lit 12)) (lit 100) = Fin (4803839602528529 / 576460752303423488)"
  "fmul (lit 1) (lit 12) = Fin 12"
  "Math_pow pow_integral (fadd (lit 1) (Fin (4803839602528529 / 576460752303423488))) (Fin 12) = Fin (2487592679439971 / 2251799813685248)"
  unfolding lit_values lit_1 lit_12 lit_100 emi_rate_year emi_rate_month emi_periods emi_base
    emi_power
  by (rule refl)+

lemma emi_accuracy:
  "approx_rel (1 / 2 ^ 45) (real_of_rat (2487592679439971 / 2251799813685248))
     ((1 + real_val (Fin (4803839602528529 / 576460752303423488))) powr real_val (Fin 12))"
  "\<bar>real_of_rat (2487592679439971 / 2251799813685248) - (1 + real_val (Fin (4803839602528529 / 576460752303423488))) powr real_val (Fin 12)\<bar>
     \<le> 1 / 2 ^ 45 * \<bar>(1 + real_val (Fin (4803839602528529 / 576460752303423488))) powr real_val (Fin 12) - 1\<bar>"
  by (simp_all add: approx_rel_def of_rat_divide power_divide)

lemma emi_ranges:
  "in_range 200 (real_val (lit 100000))"
  "in_range 200 (real_val (Fin (4803839602528529 / 576460752303423488)))"
  "in_range 200 ((1 + real_val (Fin (4803839602528529 / 576460752303423488))) powr real_val (Fin 12))"
  "in_range 200 ((1 + real_val (Fin (4803839602528529 / 576460752303423488))) powr real_val (Fin 12) - 1)"
  by (simp_all add: in_range_def lit_numeral of_rat_divide power_divide)

lemma goal_inputs:
  "fdiv (fdiv (lit 12) (lit 12)) (lit 100) = Fin (5764607523034235 / 576460752303423488)"
  "fmul (lit 1) (lit 12) = Fin 12"
  "Math_pow pow_integral (fadd (lit 1) (Fin (5764607523034235 / 576460752303423488))) (Fin 12) = Fin (5074768785814087 / 4503599627370496)"
  unfolding lit_values lit_1 lit_12 lit_100 goal_rate_year goal_rate_month emi_periods goal_base
    goal_power
  by (rule refl)+

lemma goal_accuracy:
  "\<bar>real_of_rat (5074768785814087 / 4503599627370496) - (1 + real_val (Fin (5764607523034235 / 576460752303423488))) powr real_val (Fin 12)\<bar>
     \<le> 1 / 2 ^ 48 * \<bar>(1 + real_val (Fin (5764607523034235 / 576460752303423488))) powr real_val (Fin 12) - 1\<bar>"
  by (simp_all add: approx_rel_def of_rat_divide power_divide)

lemma goal_ranges:
  "in_range 200 (real_val (lit 2000))"
  "in_range 200 (real_val (Fin (5764607523034235 / 576460752303423488)))"
  "in_range 200 (1 + real_val (Fin (5764607523034235 / 576460752303423488)))"
  "in_range 200 ((1 + real_val (Fin (5764607523034235 / 576460752303423488))) powr real_val (Fin 12) - 1)"
  "\<bar>real_val (lit 100000)\<bar> \<le> 2 ^ 1000"
  by (simp_all add: in_range_def lit_numeral of_rat_divide power_divide)

section \<open>The formula contracts\<close>

text \<open>
  Claim C1, for a number of months up to \<open>2^53\<close>: \<^verbatim>\<open>sipReturns(x, m, r)\<close> returns, and
  its result is the running total after \<open>m\<close> periods printed with \<^verbatim>\<open>toFixed(2)\<close>, where
  the total starts at \<open>0\<close> and each period first adds the contribution \<open>x\<close> and then
  multiplies by \<open>1 + r/12\<close>; with no period the result is \<open>0.00\<close>.
\<close>

theorem sipReturns_recurrence:
  "m \<le> 2 ^ 53 \<Longrightarrow>
     sipReturns x (Fin (of_nat m)) r =
       Some (toFixed2 (((\<lambda>total. fmul (fadd total x) (fadd (lit 1) (fdiv r (lit 12)))) ^^ m) (lit 0)))
     \<and> sipReturns x (Fin 0) r = Some ''0.00''"
proof (intro conjI)
  assume m: "m \<le> 2 ^ 53"
  show "sipReturns x (Fin (of_nat m)) r =
          Some (toFixed2 (((\<lambda>total. fmul (fadd total x) (fadd (lit 1) (fdiv r (lit 12)))) ^^ m) (lit 0)))"
    using sip_loop_result[OF m] by (simp add: sipReturns_def)
  show "sipReturns x (Fin 0) r = Some ''0.00''"
    using sip_loop_result[of 0] by (simp add: sipReturns_def toFixed2_zero)
qed

text \<open>
  One month at 12 percent: the deposit of 100 is compounded in the month it is made,
  which gives 101.00 (compounding before the deposit would give 100.00).
\<close>

theorem sipReturns_recurrence_witness:
  "(1 :: nat) \<le> 2 ^ 53 \<and> sipReturns (Fin 100) (Fin 1) (lit (12 / 100)) = Some ''101.00''"
  using sipReturns_recurrence[of 1 "Fin 100" "lit (12 / 100)"] sip_one_month toFixed2_101
  by simp

text \<open>
  Beyond \<open>2^53\<close> the claim fails: \<open>2^53 + 2\<close> is a number, and with it for the months
  the counter stops at \<open>2^53\<close> and the call never returns.
\<close>

theorem sipReturns_counterexample:
  "is_double (Fin 9007199254740994)
   \<and> sipReturns (Fin 1000) (Fin 9007199254740994) (Fin 0) = None"
proof
  have "round64 (of_int 4503599627370497 * pow2 1) = Fin (of_int 4503599627370497 * pow2 1)"
    by (rule round64_exact) simp_all
  then show "is_double (Fin 9007199254740994)"
    by (simp add: is_double_def pow2_def)
  show "sipReturns (Fin 1000) (Fin 9007199254740994) (Fin 0) = None"
    using sipReturns_diverges[of 9007199254740994 "Fin 1000" "Fin 0"] by simp
qed

text \<open>
  Claim C4: \<^verbatim>\<open>lumpSumReturns\<close> and \<^verbatim>\<open>futureValueWithoutInflation\<close> return the same string,
  and so do \<^verbatim>\<open>lumpSumReturnsWithInflation\<close> and \<^verbatim>\<open>futureValueWithInflation\<close>; an inflation
  rate that is left out is \<open>0.06\<close>. The string is \<open>amount * (1 + rate)^years\<close> printed with
  \<^verbatim>\<open>toFixed(2)\<close>, with \<open>rate = roi\<close> or \<open>rate = roi - inflationRate\<close>: for a finite amount
  and a rate above \<open>-1\<close>, whenever \<^verbatim>\<open>Math.pow\<close> returns the power \<open>(1 + rate)^years\<close> up to
  a relative error \<open>e \<le> 1\<close> and the product does not overflow, the number printed is
  the real product up to the relative error \<open>e + 2^-52\<close> (and \<open>2^-1075\<close> in the
  subnormal range). With the correctly rounded power, 10000 over 5 years at 8 percent
  is \<open>14693.28\<close>, and \<open>11040.81\<close> after the default inflation.
\<close>

theorem compounding_family_formula:
  "lumpSumReturns approx a y r = futureValueWithoutInflation approx a y r
   \<and> lumpSumReturnsWithInflation approx a y r i = futureValueWithInflation approx a y r i
   \<and> default_inflationRate None = lit (6 / 100)
   \<and> default_inflationRate (Some j) = j
   \<and> (finite_number a \<and> finite_number y \<and> finite_number r \<and> 0 < 1 + real_val r
        \<and> Math_pow approx (fadd (lit 1) r) y = Fin w
        \<and> approx_rel e (real_of_rat w) ((1 + real_val r) powr real_val y) \<and> 0 \<le> e \<and> e \<le> 1
        \<and> \<bar>compound_formula (real_val a) (real_val r) (real_val y)\<bar> \<le> 2 ^ 1022
      \<longrightarrow> (\<exists>z. lumpSumReturns approx a y r = toFixed2 z \<and> finite_number z
             \<and> \<bar>real_val z - compound_formula (real_val a) (real_val r) (real_val y)\<bar>
                 \<le> (e + 2 * eps64) * \<bar>compound_formula (real_val a) (real_val r) (real_val y)\<bar>
                    + tiny64))
   \<and> (finite_number a \<and> finite_number y \<and> finite_number r
        \<and> finite_number (default_inflationRate i)
        \<and> 0 < 1 + (real_val r - real_val (default_inflationRate i))
        \<and> Math_pow approx (fsub (fadd (lit 1) r) (default_inflationRate i)) y = Fin w'
        \<and> approx_rel e' (real_of_rat w')
             ((1 + (real_val r - real_val (default_inflationRate i))) powr real_val y)
        \<and> 0 \<le> e' \<and> e' \<le> 1
        \<and> \<bar>compound_formula (real_val a) (real_val r - real_val (default_inflationRate i))
              (real_val y)\<bar> \<le> 2 ^ 1022
      \<longrightarrow> (\<exists>z. lumpSumReturnsWithInflation approx a y r i = toFixed2 z \<and> finite_number z
             \<and> \<bar>real_val z - compound_formula (real_val a)
                     (real_val r - real_val (default_inflationRate i)) (real_val y)\<bar>
                 \<le> (e' + 2 * eps64) * \<bar>compound_formula (real_val a)
                     (real_val r - real_val (default_inflationRate i)) (real_val y)\<bar>
                    + tiny64))
   \<and> lumpSumReturns pow_integral (lit 10000) (lit 5) (lit (8 / 100)) = ''14693.28''
   \<and> lumpSumReturnsWithInflation pow_integral (lit 10000) (lit 5) (lit (8 / 100)) None
       = ''11040.81''"
proof (intro conjI impI)
  show "lumpSumReturns approx a y r = futureValueWithoutInflation approx a y r"
    by (simp add: lumpSumReturns_def futureValueWithoutInflation_def)
  show "lumpSumReturnsWithInflation approx a y r i = futureValueWithInflation approx a y r i"
    by (simp add: lumpSumReturnsWithInflation_def futureValueWithInflation_def)
  show "default_inflationRate None = lit (6 / 100)" "default_inflationRate (Some j) = j"
    by (simp_all add: default_inflationRate_def)
  show "lumpSumReturns pow_integral (lit 10000) (lit 5) (lit (8 / 100)) = ''14693.28''"
    by (rule lumpSumReturns_example)
  show "lumpSumReturnsWithInflation pow_integral (lit 10000) (lit 5) (lit (8 / 100)) None
       = ''11040.81''"
    by (rule lumpSumReturnsWithInflation_example)
next
  assume h: "finite_number a \<and> finite_number y \<and> finite_number r \<and> 0 < 1 + real_val r
        \<and> Math_pow approx (fadd (lit 1) r) y = Fin w
        \<and> approx_rel e (real_of_rat w) ((1 + real_val r) powr real_val y) \<and> 0 \<le> e \<and> e \<le> 1
        \<and> \<bar>compound_formula (real_val a) (real_val r) (real_val y)\<bar> \<le> 2 ^ 1022"
  show "\<exists>z. lumpSumReturns approx a y r = toFixed2 z \<and> finite_number z
             \<and> \<bar>real_val z - compound_formula (real_val a) (real_val r) (real_val y)\<bar>
                 \<le> (e + 2 * eps64) * \<bar>compound_formula (real_val a) (real_val r) (real_val y)\<bar>
                    + tiny64"
    by (rule lumpSumReturns_bound) (use h in blast)+
next
  assume h: "finite_number a \<and> finite_number y \<and> finite_number r
        \<and> finite_number (default_inflationRate i)
        \<and> 0 < 1 + (real_val r - real_val (default_inflationRate i))
        \<and> Math_pow approx (fsub (fadd (lit 1) r) (default_inflationRate i)) y = Fin w'
        \<and> approx_rel e' (real_of_rat w')
             ((1 + (real_val r - real_val (default_inflationRate i))) powr real_val y)
        \<and> 0 \<le> e' \<and> e' \<le> 1
        \<and> \<bar>compound_formula (real_val a) (real_val r - real_val (default_inflationRate i))
              (real_val y)\<bar> \<le> 2 ^ 1022"
  show "\<exists>z. lumpSumReturnsWithInflation approx a y r i = toFixed2 z \<and> finite_number z
             \<and> \<bar>real_val z - compound_formula (real_val a)
                     (real_val r - real_val (default_inflationRate i)) (real_val y)\<bar>
                 \<le> (e' + 2 * eps64) * \<bar>compound_formula (real_val a)
                     (real_val r - real_val (default_inflationRate i)) (real_val y)\<bar>
                    + tiny64"
    by (rule lumpSumReturnsWithInflation_bound) (use h in blast)+
qed

text \<open>The hypotheses of the bound hold for the calls with 10000 over 5 years at 8 percent.\<close>

theorem compounding_family_formula_witness:
  "finite_number (lit 10000) \<and> finite_number (lit 5) \<and> finite_number (lit (8 / 100))
   \<and> finite_number (default_inflationRate None)
   \<and> 0 < 1 + real_val (lit (8 / 100))
   \<and> Math_pow pow_integral (fadd (lit 1) (lit (8 / 100))) (lit 5)
       = Fin (3308632689580745 / 2251799813685248)
   \<and> approx_rel (1 / 2 ^ 50) (real_of_rat (3308632689580745 / 2251799813685248))
       ((1 + real_val (lit (8 / 100))) powr real_val (lit 5))
   \<and> \<bar>compound_formula (real_val (lit 10000)) (real_val (lit (8 / 100))) (real_val (lit 5))\<bar>
       \<le> 2 ^ 1022
   \<and> (\<exists>z. lumpSumReturns pow_integral (lit 10000) (lit 5) (lit (8 / 100)) = toFixed2 z
          \<and> finite_number z
          \<and> \<bar>real_val z - compound_formula (real_val (lit 10000)) (real_val (lit (8 / 100)))
                  (real_val (lit 5))\<bar>
              \<le> (1 / 2 ^ 50 + 2 * eps64)
                   * \<bar>compound_formula (real_val (lit 10000)) (real_val (lit (8 / 100)))
                       (real_val (lit 5))\<bar> + tiny64)
   \<and> 0 < 1 + (real_val (lit (8 / 100)) - real_val (default_inflationRate None))
   \<and> Math_pow pow_integral (fsub (fadd (lit 1) (lit (8 / 100))) (default_inflationRate None))
         (lit 5)
       = Fin (2486168946939219 / 2251799813685248)
   \<and> approx_rel (1 / 2 ^ 50) (real_of_rat (2486168946939219 / 2251799813685248))
       ((1 + (real_val (lit (8 / 100)) - real_val (default_inflationRate None)))
          powr real_val (lit 5))
   \<and> \<bar>compound_formula (real_val (lit 10000))
         (real_val (lit (8 / 100)) - real_val (default_inflationRate None)) (real_val (lit 5))\<bar>
       \<le> 2 ^ 1022
   \<and> (\<exists>z. lumpSumReturnsWithInflation pow_integral (lit 10000) (lit 5) (lit (8 / 100)) None
            = toFixed2 z
          \<and> finite_number z
          \<and> \<bar>real_val z - compound_formula (real_val (lit 10000))
                  (real_val (lit (8 / 100)) - real_val (default_inflationRate None))
                  (real_val (lit 5))\<bar>
              \<le> (1 / 2 ^ 50 + 2 * eps64)
                   * \<bar>compound_formula (real_val (lit 10000))
                       (real_val (lit (8 / 100)) - real_val (default_inflationRate None))
                       (real_val (lit 5))\<bar> + tiny64)"
proof -
  have f: "finite_number (lit 10000)" "finite_number (lit 5)" "finite_number (lit (8 / 100))"
    "finite_number (default_inflationRate None)"
    unfolding lit_8_percent default_inflationRate_def option.case lit_6_percent
    by (simp_all add: lit_numeral)
  have p1: "0 < 1 + real_val (lit (8 / 100))"
    unfolding lit_8_percent by (simp add: of_rat_divide)
  have p2: "0 < 1 + (real_val (lit (8 / 100)) - real_val (default_inflationRate None))"
    unfolding lit_8_percent default_inflationRate_def option.case lit_6_percent
    by (simp add: of_rat_divide)
  have e: "(0 :: real) \<le> 1 / 2 ^ 50" "(1 :: real) / 2 ^ 50 \<le> 1" by simp_all
  have m1: "\<bar>compound_formula (real_val (lit 10000)) (real_val (lit (8 / 100))) (real_val (lit 5))\<bar>
       \<le> 2 ^ 1022"
    unfolding lit_8_percent lit_5 compound_formula_def
    by (simp add: lit_numeral of_rat_divide power_divide)
  have m2: "\<bar>compound_formula (real_val (lit 10000))
         (real_val (lit (8 / 100)) - real_val (default_inflationRate None)) (real_val (lit 5))\<bar>
       \<le> 2 ^ 1022"
    unfolding lit_8_percent lit_5 compound_formula_def default_inflationRate_def option.case
      lit_6_percent
    by (simp add: lit_numeral of_rat_divide power_divide)
  note t = compounding_family_formula[where approx = pow_integral and a = "lit 10000"
      and y = "lit 5" and r = "lit (8 / 100)" and i = None
      and w = "3308632689580745 / 2251799813685248" and e = "1 / 2 ^ 50"
      and w' = "2486168946939219 / 2251799813685248" and e' = "1 / 2 ^ 50"]
  have c1: "\<exists>z. lumpSumReturns pow_integral (lit 10000) (lit 5) (lit (8 / 100)) = toFixed2 z
          \<and> finite_number z
          \<and> \<bar>real_val z - compound_formula (real_val (lit 10000)) (real_val (lit (8 / 100)))
                  (real_val (lit 5))\<bar>
              \<le> (1 / 2 ^ 50 + 2 * eps64)
                   * \<bar>compound_formula (real_val (lit 10000)) (real_val (lit (8 / 100)))
                       (real_val (lit 5))\<bar> + tiny64"
    using t f p1 growth_at_8_percent_lit accurate_8_percent e m1 by blast
  have c2: "\<exists>z. lumpSumReturnsWithInflation pow_integral (lit 10000) (lit 5) (lit (8 / 100)) None
            = toFixed2 z
          \<and> finite_number z
          \<and> \<bar>real_val z - compound_formula (real_val (lit 10000))
                  (real_val (lit (8 / 100)) - real_val (default_inflationRate None))
                  (real_val (lit 5))\<bar>
              \<le> (1 / 2 ^ 50 + 2 * eps64)
                   * \<bar>compound_formula (real_val (lit 10000))
                       (real_val (lit (8 / 100)) - real_val (default_inflationRate None))
                       (real_val (lit 5))\<bar> + tiny64"
    using t f p2 growth_at_2_percent accurate_2_percent e m2 by blast
  show ?thesis
    using f p1 p2 growth_at_8_percent_lit growth_at_2_percent accurate_8_percent
      accurate_2_percent m1 m2 c1 c2
    by blast
qed

text \<open>
  Claim C6: the result of \<^verbatim>\<open>safeWithdrawalRate\<close> does not depend on \<^verbatim>\<open>retirementYears\<close>;
  it is \<open>annualExpenses / retirementSavings * 100\<close> printed with \<^verbatim>\<open>toFixed(2)\<close>, and
  \<^verbatim>\<open>safeWithdrawalRate(1000000, 30, 40000)\<close> is \<open>4.00\<close>.
\<close>

theorem safeWithdrawalRate_ignores_years:
  "safeWithdrawalRate s y1 e = safeWithdrawalRate s y2 e
   \<and> safeWithdrawalRate s y1 e = toFixed2 (fmul (fdiv e s) (lit 100))
   \<and> safeWithdrawalRate (lit 1000000) (lit 30) (lit 40000) = ''4.00''"
  using safeWithdrawalRate_example by (simp add: safeWithdrawalRate_def)

text \<open>
  Claim C7: \<^verbatim>\<open>calculateDTI(d, i)\<close> is \<open>d / i * 100\<close> printed with \<^verbatim>\<open>toFixed(2)\<close>;
  \<^verbatim>\<open>calculateDTI(1500, 5000)\<close> is \<open>30.00\<close>; and when the income is a zero the division
  shows in the output, which is one of \<open>Infinity\<close>, \<open>-Infinity\<close> and \<open>NaN\<close>.
\<close>

theorem calculateDTI_formula:
  "calculateDTI d i = toFixed2 (fmul (fdiv d i) (lit 100))
   \<and> calculateDTI (lit 1500) (lit 5000) = ''30.00''
   \<and> (is_zero i \<longrightarrow> calculateDTI d i \<in> {''Infinity'', ''-Infinity'', ''NaN''})"
proof (intro conjI impI)
  show "calculateDTI d i = toFixed2 (fmul (fdiv d i) (lit 100))"
    by (simp add: calculateDTI_def)
  show "calculateDTI (lit 1500) (lit 5000) = ''30.00''"
    by (rule calculateDTI_example)
  assume "is_zero i"
  from fdiv_zero_cases[OF this, of d]
  show "calculateDTI d i \<in> {''Infinity'', ''-Infinity'', ''NaN''}"
    by (auto simp: calculateDTI_def fmul_100_special toFixed2_def)
qed

theorem calculateDTI_formula_witness:
  "is_zero (Fin 0) \<and> calculateDTI (Fin 1500) (Fin 0) = ''Infinity''"
proof -
  have z: "is_zero (Fin 0)" by (simp add: is_zero_def)
  have "calculateDTI (Fin 1500) (Fin 0) \<in> {''Infinity'', ''-Infinity'', ''NaN''}"
    using calculateDTI_formula[of "Fin 1500" "Fin 0"] z by blast
  moreover have "calculateDTI (Fin 1500) (Fin 0) = ''Infinity''"
    by (simp add: calculateDTI_def fdiv_def fmul_def is_NaN_def is_inf_def is_zero_def
        inf_of_def neg_sign_def toFixed2_def)
  ultimately show ?thesis using z by simp
qed

text \<open>
  Claim C10: \<^verbatim>\<open>sipReturnsWithInflation(x, m, r, i)\<close> is \<^verbatim>\<open>sipReturns(x, m, r - i)\<close>, also
  when neither returns; an inflation rate that is left out is \<open>0.06\<close>.
\<close>

theorem sipReturnsWithInflation_shifted_rate:
  "sipReturnsWithInflation x m r i = sipReturns x m (fsub r (default_inflationRate i))
   \<and> default_inflationRate None = lit (6 / 100)
   \<and> default_inflationRate (Some j) = j"
  by (simp add: sipReturnsWithInflation_def sipReturns_def default_inflationRate_def)

text \<open>
  Claim C8: for debts whose balances (interest rates) are numbers other than NaN,
  \<^verbatim>\<open>debtSnowball\<close> returns the list in ascending order of balance and \<^verbatim>\<open>debtAvalanche\<close>
  in descending order of interest rate; both keep the input order among equal keys,
  both return a permutation of the input, and the empty list is returned as it is.
\<close>

theorem debt_ordering:
  assumes "\<forall>d \<in> set ds. is_double (balance d) \<and> \<not> is_NaN (balance d)"
    and "\<forall>d \<in> set rs. is_double (interestRate d) \<and> \<not> is_NaN (interestRate d)"
  shows "sorted_wrt (\<lambda>a b. fle (balance a) (balance b)) (debtSnowball ds)
     \<and> (\<forall>k. filter (\<lambda>d. feq (balance d) k) (debtSnowball ds) = filter (\<lambda>d. feq (balance d) k) ds)
     \<and> mset (debtSnowball ds) = mset ds
     \<and> sorted_wrt (\<lambda>a b. fle (interestRate b) (interestRate a)) (debtAvalanche rs)
     \<and> (\<forall>k. filter (\<lambda>d. feq (interestRate d) k) (debtAvalanche rs)
            = filter (\<lambda>d. feq (interestRate d) k) rs)
     \<and> mset (debtAvalanche rs) = mset rs
     \<and> debtSnowball [] = [] \<and> debtAvalanche [] = []"
proof (intro conjI allI)
  show "sorted_wrt (\<lambda>a b. fle (balance a) (balance b)) (debtSnowball ds)"
    unfolding debtSnowball_def using agrees_balance[OF assms(1)] by (rule sorted_Array_sort)
  show "filter (\<lambda>d. feq (balance d) k) (debtSnowball ds) = filter (\<lambda>d. feq (balance d) k) ds" for k
    unfolding debtSnowball_def using agrees_balance[OF assms(1)] by (rule stable_Array_sort)
  show "mset (debtSnowball ds) = mset ds"
    by (simp add: debtSnowball_def mset_Array_sort)
  have "sorted_wrt (\<lambda>a b. fle (fneg (interestRate a)) (fneg (interestRate b))) (debtAvalanche rs)"
    unfolding debtAvalanche_def using agrees_interestRate[OF assms(2)] by (rule sorted_Array_sort)
  then show "sorted_wrt (\<lambda>a b. fle (interestRate b) (interestRate a)) (debtAvalanche rs)"
    by (simp add: fle_fneg)
  have "filter (\<lambda>d. feq (fneg (interestRate d)) (fneg k)) (debtAvalanche rs)
        = filter (\<lambda>d. feq (fneg (interestRate d)) (fneg k)) rs" for k
    unfolding debtAvalanche_def using agrees_interestRate[OF assms(2)] by (rule stable_Array_sort)
  then show "filter (\<lambda>d. feq (interestRate d) k) (debtAvalanche rs)
        = filter (\<lambda>d. feq (interestRate d) k) rs" for k
    by (simp add: feq_fneg)
  show "mset (debtAvalanche rs) = mset rs"
    by (simp add: debtAvalanche_def mset_Array_sort)
  show "debtSnowball [] = []" by (simp add: debtSnowball_def)
  show "debtAvalanche [] = []" by (simp add: debtAvalanche_def)
qed

theorem debt_ordering_witness:
  "list_all (\<lambda>d. is_double (balance d) \<and> \<not> is_NaN (balance d)) test_debts
   \<and> list_all (\<lambda>d. is_double (interestRate d) \<and> \<not> is_NaN (interestRate d)) test_rates
   \<and> debtSnowball test_debts =
       [\<lparr>name = ''Credit Card B'', balance = lit 2500\<rparr>,
        \<lparr>name = ''Credit Card A'', balance = lit 5000\<rparr>,
        \<lparr>name = ''Personal Loan'', balance = lit 10000\<rparr>]
   \<and> sorted_wrt (\<lambda>a b. fle (balance a) (balance b)) (debtSnowball test_debts)
   \<and> mset (debtSnowball test_debts) = mset test_debts
   \<and> sorted_wrt (\<lambda>a b. fle (interestRate b) (interestRate a)) (debtAvalanche test_rates)
   \<and> mset (debtAvalanche test_rates) = mset test_rates"
proof -
  have h1: "\<forall>d \<in> set test_debts. is_double (balance d) \<and> \<not> is_NaN (balance d)"
    by (simp add: test_debts_def)
  have h2: "\<forall>d \<in> set test_rates. is_double (interestRate d) \<and> \<not> is_NaN (interestRate d)"
    by (simp add: test_rates_def)
  from debt_ordering[OF h1 h2]
  have c: "sorted_wrt (\<lambda>a b. fle (balance a) (balance b)) (debtSnowball test_debts)"
    "mset (debtSnowball test_debts) = mset test_debts"
    "sorted_wrt (\<lambda>a b. fle (interestRate b) (interestRate a)) (debtAvalanche test_rates)"
    "mset (debtAvalanche test_rates) = mset test_rates"
    by blast+
  show ?thesis
    unfolding list_all_iff using h1 h2 c debtSnowball_test by blast
qed

text \<open>
  Claim C9: every function of the module is a function of its arguments alone (and of
  the platform's \<^verbatim>\<open>Math.pow\<close>), so equal inputs give equal outputs; the two sorts are
  moreover idempotent, and a list that is in order already is returned unchanged.
\<close>

theorem debt_sort_idempotent:
  assumes "\<forall>d \<in> set ds. is_double (balance d) \<and> \<not> is_NaN (balance d)"
    and "\<forall>d \<in> set rs. is_double (interestRate d) \<and> \<not> is_NaN (interestRate d)"
  shows "debtSnowball (debtSnowball ds) = debtSnowball ds
     \<and> debtAvalanche (debtAvalanche rs) = debtAvalanche rs
     \<and> (sorted_wrt (\<lambda>a b. fle (balance a) (balance b)) ds \<longrightarrow> debtSnowball ds = ds)
     \<and> (sorted_wrt (\<lambda>a b. fle (interestRate b) (interestRate a)) rs \<longrightarrow> debtAvalanche rs = rs)"
proof (intro conjI impI)
  let ?cb = "\<lambda>a b :: 'a debt_scheme. fsub (balance a) (balance b)"
  let ?cr = "\<lambda>a b :: 'b debt_rate_scheme. fsub (interestRate b) (interestRate a)"
  have b: "agrees ?cb balance (set ds)" by (rule agrees_balance[OF assms(1)])
  have r: "agrees ?cr (\<lambda>d. fneg (interestRate d)) (set rs)"
    by (rule agrees_interestRate[OF assms(2)])
  have "Array_sort ?cb (Array_sort ?cb ds) = Array_sort ?cb ds"
    using b sorted_Array_sort[OF b] by (intro Array_sort_sorted) (simp_all add: set_Array_sort)
  then show "debtSnowball (debtSnowball ds) = debtSnowball ds" by (simp add: debtSnowball_def)
  have "Array_sort ?cr (Array_sort ?cr rs) = Array_sort ?cr rs"
    using r sorted_Array_sort[OF r] by (intro Array_sort_sorted) (simp_all add: set_Array_sort)
  then show "debtAvalanche (debtAvalanche rs) = debtAvalanche rs" by (simp add: debtAvalanche_def)
  show "debtSnowball ds = ds" if "sorted_wrt (\<lambda>a b. fle (balance a) (balance b)) ds"
    unfolding debtSnowball_def using b that by (rule Array_sort_sorted)
  show "debtAvalanche rs = rs" if "sorted_wrt (\<lambda>a b. fle (interestRate b) (interestRate a)) rs"
  proof -
    have "sorted_wrt (\<lambda>a b. fle (fneg (interestRate a)) (fneg (interestRate b))) rs"
      using that by (simp add: fle_fneg)
    with r show ?thesis unfolding debtAvalanche_def by (rule Array_sort_sorted)
  qed
qed

theorem debt_sort_idempotent_witness:
  "list_all (\<lambda>d. is_double (balance d) \<and> \<not> is_NaN (balance d)) test_debts
   \<and> list_all (\<lambda>d. is_double (interestRate d) \<and> \<not> is_NaN (interestRate d)) test_rates
   \<and> debtSnowball (debtSnowball test_debts) = debtSnowball test_debts
   \<and> debtAvalanche (debtAvalanche test_rates) = debtAvalanche test_rates
   \<and> sorted_wrt (\<lambda>a b. fle (interestRate b) (interestRate a)) test_rates
   \<and> debtAvalanche test_rates = test_rates"
proof -
  have h1: "\<forall>d \<in> set test_debts. is_double (balance d) \<and> \<not> is_NaN (balance d)"
    by (simp add: test_debts_def)
  have h2: "\<forall>d \<in> set test_rates. is_double (interestRate d) \<and> \<not> is_NaN (interestRate d)"
    by (simp add: test_rates_def)
  from debt_sort_idempotent[OF h1 h2] test_rates_descending
  have c: "debtSnowball (debtSnowball test_debts) = debtSnowball test_debts"
    "debtAvalanche (debtAvalanche test_rates) = debtAvalanche test_rates"
    "debtAvalanche test_rates = test_rates"
    by blast+
  show ?thesis
    unfolding list_all_iff using h1 h2 c test_rates_descending by blast
qed

text \<open>
  Claim C2: \<^verbatim>\<open>retirementSavingsGoal\<close> takes \<open>n = y * 12\<close> months and the monthly
  rate \<open>r = p / 12 / 100\<close>, forms \<open>FV = pmt * (((1 + r)^n - 1) / r) * (1 + r)\<close> (the
  quotient first) and returns \<open>FV - s\<close> printed with \<^verbatim>\<open>toFixed(2)\<close>. For finite amounts
  and magnitudes between \<open>2^-200\<close> and \<open>2^200\<close>, whenever \<^verbatim>\<open>Math.pow\<close> returns the power
  \<open>(1 + r)^n\<close> with an error of at most \<open>e \<le> 1/8\<close> times the growth \<open>|(1 + r)^n - 1|\<close>,
  the number printed is the real value of the annuity-due formula less the savings, up
  to \<open>e + 2^-49\<close> times the sum of their magnitudes (and \<open>2^-1075\<close>). The result can be
  negative: with no years left, savings of 100000 give \<open>-100000.00\<close>, and with one year
  at 12 percent and the correctly rounded power they give \<open>-74381.34\<close>.
\<close>

theorem retirementSavingsGoal_formula:
  "retirementSavingsGoal approx pmt y p s =
     (let n = fmul y (lit 12);
          r = fdiv (fdiv p (lit 12)) (lit 100);
          FV = fmul (fmul pmt (fdiv (fsub (Math_pow approx (fadd (lit 1) r) n) (lit 1)) r))
                    (fadd (lit 1) r)
      in toFixed2 (fsub FV s))
   \<and> (n = fmul y (lit 12) \<and> r = fdiv (fdiv p (lit 12)) (lit 100)
        \<and> W = (1 + real_val r) powr real_val n
        \<and> finite_number pmt \<and> finite_number r \<and> finite_number n \<and> finite_number s
        \<and> 0 < 1 + real_val r
        \<and> in_range 200 (real_val pmt) \<and> in_range 200 (real_val r)
        \<and> in_range 200 (1 + real_val r) \<and> in_range 200 (W - 1)
        \<and> \<bar>real_val s\<bar> \<le> 2 ^ 1000
        \<and> Math_pow approx (fadd (lit 1) r) n = Fin w
        \<and> \<bar>real_of_rat w - W\<bar> \<le> e * \<bar>W - 1\<bar> \<and> 0 \<le> e \<and> e \<le> 1 / 8
      \<longrightarrow> (\<exists>z. retirementSavingsGoal approx pmt y p s = toFixed2 z \<and> finite_number z
             \<and> \<bar>real_val z - (annuity_due_formula (real_val pmt) (real_val r) (real_val n)
                                - real_val s)\<bar>
                 \<le> (e + 16 * eps64)
                      * (\<bar>annuity_due_formula (real_val pmt) (real_val r) (real_val n)\<bar>
                         + \<bar>real_val s\<bar>)
                    + tiny64))
   \<and> retirementSavingsGoal approx (lit 2000) (Fin 0) (lit 12) (lit 100000) = ''-100000.00''
   \<and> retirementSavingsGoal pow_integral (lit 2000) (lit 1) (lit 12) (lit 100000) = ''-74381.34''"
proof (intro conjI impI)
  show "retirementSavingsGoal approx pmt y p s =
     (let n = fmul y (lit 12);
          r = fdiv (fdiv p (lit 12)) (lit 100);
          FV = fmul (fmul pmt (fdiv (fsub (Math_pow approx (fadd (lit 1) r) n) (lit 1)) r))
                    (fadd (lit 1) r)
      in toFixed2 (fsub FV s))"
    by (simp add: retirementSavingsGoal_def Let_def)
  show "retirementSavingsGoal approx (lit 2000) (Fin 0) (lit 12) (lit 100000) = ''-100000.00''"
    by (rule retirement_no_horizon)
  show "retirementSavingsGoal pow_integral (lit 2000) (lit 1) (lit 12) (lit 100000) = ''-74381.34''"
    by (rule retirementSavingsGoal_example)
next
  assume h: "n = fmul y (lit 12) \<and> r = fdiv (fdiv p (lit 12)) (lit 100)
        \<and> W = (1 + real_val r) powr real_val n
        \<and> finite_number pmt \<and> finite_number r \<and> finite_number n \<and> finite_number s
        \<and> 0 < 1 + real_val r
        \<and> in_range 200 (real_val pmt) \<and> in_range 200 (real_val r)
        \<and> in_range 200 (1 + real_val r) \<and> in_range 200 (W - 1)
        \<and> \<bar>real_val s\<bar> \<le> 2 ^ 1000
        \<and> Math_pow approx (fadd (lit 1) r) n = Fin w
        \<and> \<bar>real_of_rat w - W\<bar> \<le> e * \<bar>W - 1\<bar> \<and> 0 \<le> e \<and> e \<le> 1 / 8"
  then have eq: "n = fmul y (lit 12)" "r = fdiv (fdiv p (lit 12)) (lit 100)"
    "W = (1 + real_val r) powr real_val n" "Math_pow approx (fadd (lit 1) r) n = Fin w"
    by blast+
  have c: "retirementSavingsGoal approx pmt y p s
           = toFixed2 (fsub (fmul (fmul pmt (fdiv (fsub (Fin w) (lit 1)) r)) (fadd (lit 1) r)) s)"
    unfolding retirementSavingsGoal_def Let_def eq(1,2)[symmetric] eq(4) ..
  have f: "annuity_due_formula (real_val pmt) (real_val r) (real_val n)
           = real_val pmt * ((W - 1) / real_val r) * (1 + real_val r)"
    by (simp add: annuity_due_formula_def eq(3))
  from h have hs: "finite_number pmt" "finite_number r" "finite_number s"
    "in_range 200 (real_val pmt)" "in_range 200 (real_val r)" "in_range 200 (1 + real_val r)"
    "in_range 200 (W - 1)" "\<bar>real_of_rat w - W\<bar> \<le> e * \<bar>W - 1\<bar>" "0 \<le> e" "e \<le> 1 / 8"
    "\<bar>real_val s\<bar> \<le> 2 ^ 1000"
    by blast+
  from annuity_bound[OF hs]
  have "finite_number
           (fsub (fmul (fmul pmt (fdiv (fsub (Fin w) (lit 1)) r)) (fadd (lit 1) r)) s)"
    and "\<bar>real_val (fsub (fmul (fmul pmt (fdiv (fsub (Fin w) (lit 1)) r)) (fadd (lit 1) r)) s)
          - (real_val pmt * ((W - 1) / real_val r) * (1 + real_val r) - real_val s)\<bar>
         \<le> (e + 16 * eps64)
              * (\<bar>real_val pmt * ((W - 1) / real_val r) * (1 + real_val r)\<bar> + \<bar>real_val s\<bar>)
            + tiny64"
    by blast+
  then show "\<exists>z. retirementSavingsGoal approx pmt y p s = toFixed2 z \<and> finite_number z
             \<and> \<bar>real_val z - (annuity_due_formula (real_val pmt) (real_val r) (real_val n)
                                - real_val s)\<bar>
                 \<le> (e + 16 * eps64)
                      * (\<bar>annuity_due_formula (real_val pmt) (real_val r) (real_val n)\<bar>
                         + \<bar>real_val s\<bar>)
                    + tiny64"
    unfolding c f by blast
qed

text \<open>The hypotheses of the bound hold for 2000 a month over one year at 12 percent.\<close>

theorem retirementSavingsGoal_formula_witness:
  "Fin 12 = fmul (lit 1) (lit 12)
   \<and> Fin (5764607523034235 / 576460752303423488) = fdiv (fdiv (lit 12) (lit 12)) (lit 100)
   \<and> finite_number (lit 2000) \<and> finite_number (Fin (5764607523034235 / 576460752303423488)) \<and> finite_number (Fin 12)
   \<and> finite_number (lit 100000)
   \<and> 0 < 1 + real_val (Fin (5764607523034235 / 576460752303423488))
   \<and> in_range 200 (real_val (lit 2000)) \<and> in_range 200 (real_val (Fin (5764607523034235 / 576460752303423488)))
   \<and> in_range 200 (1 + real_val (Fin (5764607523034235 / 576460752303423488)))
   \<and> in_range 200 ((1 + real_val (Fin (5764607523034235 / 576460752303423488))) powr real_val (Fin 12) - 1)
   \<and> \<bar>real_val (lit 100000)\<bar> \<le> 2 ^ 1000
   \<and> Math_pow pow_integral (fadd (lit 1) (Fin (5764607523034235 / 576460752303423488))) (Fin 12) = Fin (5074768785814087 / 4503599627370496)
   \<and> \<bar>real_of_rat (5074768785814087 / 4503599627370496) - (1 + real_val (Fin (5764607523034235 / 576460752303423488))) powr real_val (Fin 12)\<bar>
        \<le> 1 / 2 ^ 48 * \<bar>(1 + real_val (Fin (5764607523034235 / 576460752303423488))) powr real_val (Fin 12) - 1\<bar>
   \<and> (\<exists>z. retirementSavingsGoal pow_integral (lit 2000) (lit 1) (lit 12) (lit 100000)
            = toFixed2 z
          \<and> finite_number z
          \<and> \<bar>real_val z - (annuity_due_formula (real_val (lit 2000)) (real_val (Fin (5764607523034235 / 576460752303423488)))
                               (real_val (Fin 12)) - real_val (lit 100000))\<bar>
              \<le> (1 / 2 ^ 48 + 16 * eps64)
                   * (\<bar>annuity_due_formula (real_val (lit 2000)) (real_val (Fin (5764607523034235 / 576460752303423488)))
                         (real_val (Fin 12))\<bar> + \<bar>real_val (lit 100000)\<bar>)
                 + tiny64)
   \<and> retirementSavingsGoal pow_integral (lit 2000) (lit 1) (lit 12) (lit 100000)
       = ''-74381.34''"
proof -
  have i: "Fin 12 = fmul (lit 1) (lit 12)"
    "Fin (5764607523034235 / 576460752303423488) = fdiv (fdiv (lit 12) (lit 12)) (lit 100)"
    using goal_inputs(1,2) by simp_all
  have f: "finite_number (lit 2000)" "finite_number (Fin (5764607523034235 / 576460752303423488))" "finite_number (Fin 12)"
    "finite_number (lit 100000)"
    by (simp_all add: lit_numeral)
  have p: "0 < 1 + real_val (Fin (5764607523034235 / 576460752303423488))" by (simp add: of_rat_divide)
  have e: "(0 :: real) \<le> 1 / 2 ^ 48" "(1 :: real) / 2 ^ 48 \<le> 1 / 8" by simp_all
  note t = retirementSavingsGoal_formula[where approx = pow_integral and pmt = "lit 2000"
      and y = "lit 1" and p = "lit 12" and s = "lit 100000" and r = "Fin (5764607523034235 / 576460752303423488)" and n = "Fin 12"
      and W = "(1 + real_val (Fin (5764607523034235 / 576460752303423488))) powr real_val (Fin 12)"
      and w = "5074768785814087 / 4503599627370496" and e = "1 / 2 ^ 48"]
  have c: "\<exists>z. retirementSavingsGoal pow_integral (lit 2000) (lit 1) (lit 12) (lit 100000)
            = toFixed2 z
          \<and> finite_number z
          \<and> \<bar>real_val z - (annuity_due_formula (real_val (lit 2000)) (real_val (Fin (5764607523034235 / 576460752303423488)))
                               (real_val (Fin 12)) - real_val (lit 100000))\<bar>
              \<le> (1 / 2 ^ 48 + 16 * eps64)
                   * (\<bar>annuity_due_formula (real_val (lit 2000)) (real_val (Fin (5764607523034235 / 576460752303423488)))
                         (real_val (Fin 12))\<bar> + \<bar>real_val (lit 100000)\<bar>)
                 + tiny64"
    using t i f p e goal_ranges goal_inputs(3) goal_accuracy by blast
  have x: "retirementSavingsGoal pow_integral (lit 2000) (lit 1) (lit 12) (lit 100000)
       = ''-74381.34''"
    using t by blast
  show ?thesis
    using i f p goal_ranges goal_inputs(3) goal_accuracy c x by blast
qed

text \<open>
  Claim C3: \<^verbatim>\<open>calculateEMI\<close> takes the monthly rate \<open>r = a / 12 / 100\<close> and
  \<open>n = y * 12\<close> periods and returns \<open>P * r * (1 + r)^n / ((1 + r)^n - 1)\<close> printed with
  \<^verbatim>\<open>toFixed(2)\<close>. For a finite principal and magnitudes between \<open>2^-200\<close> and \<open>2^200\<close>,
  whenever \<^verbatim>\<open>Math.pow\<close> returns the power \<open>(1 + r)^n\<close> up to the relative error
  \<open>e \<le> 1/8\<close>, also relative to the growth \<open>|(1 + r)^n - 1|\<close>, the number printed is the
  real value of the formula up to the relative error \<open>3 * e + 2^-49\<close>; with the
  correctly rounded power, 100000 at 10 percent over one year gives \<open>8791.59\<close>. A
  monthly rate of zero is not treated apart: where \<^verbatim>\<open>Math.pow(1, n)\<close> is \<open>1\<close> the divisor
  is zero, the quotient is \<open>0 / 0\<close> and the result is \<open>NaN\<close>, not the straight-line
  \<open>P / n\<close>.
\<close>

theorem calculateEMI_formula:
  "calculateEMI approx P a y =
     (let r = fdiv (fdiv a (lit 12)) (lit 100);
          n = fmul y (lit 12)
      in toFixed2 (fdiv (fmul (fmul P r) (Math_pow approx (fadd (lit 1) r) n))
                        (fsub (Math_pow approx (fadd (lit 1) r) n) (lit 1))))
   \<and> (r = fdiv (fdiv a (lit 12)) (lit 100) \<and> n = fmul y (lit 12)
        \<and> W = (1 + real_val r) powr real_val n
        \<and> finite_number P \<and> finite_number r \<and> finite_number n \<and> 0 < 1 + real_val r
        \<and> in_range 200 (real_val P) \<and> in_range 200 (real_val r)
        \<and> in_range 200 W \<and> in_range 200 (W - 1)
        \<and> Math_pow approx (fadd (lit 1) r) n = Fin w
        \<and> approx_rel e (real_of_rat w) W \<and> \<bar>real_of_rat w - W\<bar> \<le> e * \<bar>W - 1\<bar>
        \<and> 0 \<le> e \<and> e \<le> 1 / 8
      \<longrightarrow> (\<exists>z. calculateEMI approx P a y = toFixed2 z \<and> finite_number z
             \<and> approx_rel (3 * e + 16 * eps64) (real_val z)
                  (emi_formula (real_val P) (real_val r) (real_val n))))
   \<and> (is_zero (fdiv (fdiv a (lit 12)) (lit 100)) \<and> approx (Fin 1) (fmul y (lit 12)) = Fin 1 \<longrightarrow>
        calculateEMI approx P a y = ''NaN'')
   \<and> calculateEMI pow_integral (lit 100000) (lit 10) (lit 1) = ''8791.59''"
proof (intro conjI impI)
  show "calculateEMI approx P a y =
     (let r = fdiv (fdiv a (lit 12)) (lit 100);
          n = fmul y (lit 12)
      in toFixed2 (fdiv (fmul (fmul P r) (Math_pow approx (fadd (lit 1) r) n))
                        (fsub (Math_pow approx (fadd (lit 1) r) n) (lit 1))))"
    by (simp add: calculateEMI_def Let_def)
  show "calculateEMI pow_integral (lit 100000) (lit 10) (lit 1) = ''8791.59''"
    by (rule calculateEMI_example)
next
  assume "is_zero (fdiv (fdiv a (lit 12)) (lit 100)) \<and> approx (Fin 1) (fmul y (lit 12)) = Fin 1"
  then show "calculateEMI approx P a y = ''NaN''"
    using emi_zero_rate[of a approx y P] by simp
next
  assume h: "r = fdiv (fdiv a (lit 12)) (lit 100) \<and> n = fmul y (lit 12)
        \<and> W = (1 + real_val r) powr real_val n
        \<and> finite_number P \<and> finite_number r \<and> finite_number n \<and> 0 < 1 + real_val r
        \<and> in_range 200 (real_val P) \<and> in_range 200 (real_val r)
        \<and> in_range 200 W \<and> in_range 200 (W - 1)
        \<and> Math_pow approx (fadd (lit 1) r) n = Fin w
        \<and> approx_rel e (real_of_rat w) W \<and> \<bar>real_of_rat w - W\<bar> \<le> e * \<bar>W - 1\<bar>
        \<and> 0 \<le> e \<and> e \<le> 1 / 8"
  then have eq: "r = fdiv (fdiv a (lit 12)) (lit 100)" "n = fmul y (lit 12)"
    "W = (1 + real_val r) powr real_val n" "Math_pow approx (fadd (lit 1) r) n = Fin w"
    by blast+
  have c: "calculateEMI approx P a y
           = toFixed2 (fdiv (fmul (fmul P r) (Fin w)) (fsub (Fin w) (lit 1)))"
    unfolding calculateEMI_def Let_def eq(1,2)[symmetric] eq(4) ..
  have f: "emi_formula (real_val P) (real_val r) (real_val n)
           = real_val P * real_val r * W / (W - 1)"
    by (simp add: emi_formula_def eq(3))
  from h have hs: "finite_number P" "finite_number r" "in_range 200 (real_val P)"
    "in_range 200 (real_val r)" "in_range 200 W" "in_range 200 (W - 1)"
    "approx_rel e (real_of_rat w) W" "\<bar>real_of_rat w - W\<bar> \<le> e * \<bar>W - 1\<bar>" "0 \<le> e" "e \<le> 1 / 8"
    by blast+
  from emi_bound[OF hs]
  have "finite_number (fdiv (fmul (fmul P r) (Fin w)) (fsub (Fin w) (lit 1)))"
    and "approx_rel (3 * e + 16 * eps64)
           (real_val (fdiv (fmul (fmul P r) (Fin w)) (fsub (Fin w) (lit 1))))
           (real_val P * real_val r * W / (W - 1))"
    by blast+
  then show "\<exists>z. calculateEMI approx P a y = toFixed2 z \<and> finite_number z
             \<and> approx_rel (3 * e + 16 * eps64) (real_val z)
                  (emi_formula (real_val P) (real_val r) (real_val n))"
    unfolding c f by blast
qed

text \<open>
  The hypotheses of the bound hold for 100000 at 10 percent over one year, and those of
  the zero rate for 100000 at 0 percent over five years.
\<close>

theorem calculateEMI_formula_witness:
  "Fin (4803839602528529 / 576460752303423488) = fdiv (fdiv (lit 10) (lit 12)) (lit 100)
   \<and> Fin 12 = fmul (lit 1) (lit 12)
   \<and> finite_number (lit 100000) \<and> finite_number (Fin (4803839602528529 / 576460752303423488)) \<and> finite_number (Fin 12)
   \<and> 0 < 1 + real_val (Fin (4803839602528529 / 576460752303423488))
   \<and> in_range 200 (real_val (lit 100000)) \<and> in_range 200 (real_val (Fin (4803839602528529 / 576460752303423488)))
   \<and> in_range 200 ((1 + real_val (Fin (4803839602528529 / 576460752303423488))) powr real_val (Fin 12))
   \<and> in_range 200 ((1 + real_val (Fin (4803839602528529 / 576460752303423488))) powr real_val (Fin 12) - 1)
   \<and> Math_pow pow_integral (fadd (lit 1) (Fin (4803839602528529 / 576460752303423488))) (Fin 12) = Fin (2487592679439971 / 2251799813685248)
   \<and> approx_rel (1 / 2 ^ 45) (real_of_rat (2487592679439971 / 2251799813685248))
        ((1 + real_val (Fin (4803839602528529 / 576460752303423488))) powr real_val (Fin 12))
   \<and> \<bar>real_of_rat (2487592679439971 / 2251799813685248) - (1 + real_val (Fin (4803839602528529 / 576460752303423488))) powr real_val (Fin 12)\<bar>
        \<le> 1 / 2 ^ 45 * \<bar>(1 + real_val (Fin (4803839602528529 / 576460752303423488))) powr real_val (Fin 12) - 1\<bar>
   \<and> (\<exists>z. calculateEMI pow_integral (lit 100000) (lit 10) (lit 1) = toFixed2 z
          \<and> finite_number z
          \<and> approx_rel (3 * (1 / 2 ^ 45) + 16 * eps64) (real_val z)
               (emi_formula (real_val (lit 100000)) (real_val (Fin (4803839602528529 / 576460752303423488)))
                  (real_val (Fin 12))))
   \<and> calculateEMI pow_integral (lit 100000) (lit 10) (lit 1) = ''8791.59''
   \<and> is_zero (fdiv (fdiv (Fin 0) (lit 12)) (lit 100))
   \<and> pow_integral (Fin 1) (fmul (lit 5) (lit 12)) = Fin 1
   \<and> calculateEMI pow_integral (lit 100000) (Fin 0) (lit 5) = ''NaN''"
proof -
  have i: "Fin (4803839602528529 / 576460752303423488) = fdiv (fdiv (lit 10) (lit 12)) (lit 100)"
    "Fin 12 = fmul (lit 1) (lit 12)"
    using emi_inputs(1,2) by simp_all
  have f: "finite_number (lit 100000)" "finite_number (Fin (4803839602528529 / 576460752303423488))" "finite_number (Fin 12)"
    by (simp_all add: lit_numeral)
  have p: "0 < 1 + real_val (Fin (4803839602528529 / 576460752303423488))" by (simp add: of_rat_divide)
  have e: "(0 :: real) \<le> 1 / 2 ^ 45" "(1 :: real) / 2 ^ 45 \<le> 1 / 8" by simp_all
  note t = calculateEMI_formula[where approx = pow_integral and P = "lit 100000"
      and a = "lit 10" and y = "lit 1" and r = "Fin (4803839602528529 / 576460752303423488)" and n = "Fin 12"
      and W = "(1 + real_val (Fin (4803839602528529 / 576460752303423488))) powr real_val (Fin 12)"
      and w = "2487592679439971 / 2251799813685248" and e = "1 / 2 ^ 45"]
  have c: "\<exists>z. calculateEMI pow_integral (lit 100000) (lit 10) (lit 1) = toFixed2 z
          \<and> finite_number z
          \<and> approx_rel (3 * (1 / 2 ^ 45) + 16 * eps64) (real_val z)
               (emi_formula (real_val (lit 100000)) (real_val (Fin (4803839602528529 / 576460752303423488)))
                  (real_val (Fin 12)))"
    using t i f p e emi_ranges emi_inputs(3) emi_accuracy by blast
  have x: "calculateEMI pow_integral (lit 100000) (lit 10) (lit 1) = ''8791.59''"
    using t by blast
  have z: "is_zero (fdiv (fdiv (Fin 0) (lit 12)) (lit 100))"
    using fdiv_zero_is_zero[of "Fin 0"] by (simp add: is_zero_def)
  have "fmul (lit 5) (lit 12) = Fin 60"
    by (simp add: lit_numeral fmul_Fin round64_numeral)
  then have o: "pow_integral (Fin 1) (fmul (lit 5) (lit 12)) = Fin 1"
    using round64_of_nat[of 1] by (simp add: pow_integral_def is_integral_def val_def)
  note t0 = calculateEMI_formula[where approx = pow_integral and P = "lit 100000"
      and a = "Fin 0" and y = "lit 5" and r = "Fin (4803839602528529 / 576460752303423488)" and n = "Fin 12"
      and W = "(1 + real_val (Fin (4803839602528529 / 576460752303423488))) powr real_val (Fin 12)"
      and w = "2487592679439971 / 2251799813685248" and e = "1 / 2 ^ 45"]
  have n: "calculateEMI pow_integral (lit 100000) (Fin 0) (lit 5) = ''NaN''"
    using t0 z o by blast
  show ?thesis
    using i f p emi_ranges emi_inputs(3) emi_accuracy c x z o n by blast
qed

text \<open>
  Claim C5, with the tolerance scaled by the growth factor: when \<^verbatim>\<open>Math.pow(1 + r, y)\<close> is
  a finite number \<open>w\<close> of magnitude between \<open>2^-900\<close> and \<open>2^900\<close>, \<open>p\<close> is finite and
  the future value \<open>|p| * |w|\<close> is at most \<open>10^18 - 1000\<close> (so that its string has at most
  twenty significant digits, which StringToNumber reads exactly), the present value of
  the future value of \<open>p\<close> is \<^verbatim>\<open>toFixed(2)\<close> of a number within
  \<open>0.006 / |w| + |p| / 2^50\<close> of \<open>p\<close>: the rounding of the future value to hundredths,
  divided by the growth factor, and the roundings of the arithmetic. For a growth
  factor of at least one this is within \<open>0.006 + |p| / 2^50\<close>.
\<close>

theorem present_of_future_round_trip:
  assumes "Math_pow approx (fadd (lit 1) r) y = Fin w"
    and "pow2 (- 900) \<le> \<bar>w\<bar>" "\<bar>w\<bar> \<le> pow2 900"
    and "finite_number p" "\<bar>val p\<bar> * \<bar>w\<bar> \<le> 10 ^ 18 - 1000"
  shows "\<exists>z. presentValue_of_futureValue approx p y r = Some (toFixed2 z) \<and> finite_number z
            \<and> \<bar>val z - val p\<bar> \<le> 6 / 1000 / \<bar>w\<bar> + \<bar>val p\<bar> / 2 ^ 50
            \<and> (1 \<le> \<bar>w\<bar> \<longrightarrow> \<bar>val z - val p\<bar> \<le> 6 / 1000 + \<bar>val p\<bar> / 2 ^ 50)"
proof -
  define e where "e = pow2 (- 53)"
  define h where "h = pow2 (- 1075)"
  define G where "G = 1 / 200 / \<bar>w\<bar>"
  define H where "H = G / 5000"
  note h = tiny[folded h_def]
  note e = unit_roundoff[folded e_def]
  have pw1: "Math_pow approx (fadd (Fin 1) r) y = Fin w" using assms(1) by simp
  have w0: "0 < \<bar>w\<bar>" using assms(2) pow2_pos[of "- 900"] by linarith
  then have wne: "w \<noteq> 0" by auto
  have fw: "finite_number (Fin w)" "val (Fin w) = w" "\<not> is_zero (Fin w)"
    using wne by (simp_all add: finite_number_def is_NaN_def is_inf_def val_def is_zero_def)
  have G0: "0 < G" using w0 by (simp add: G_def)
  have H0: "0 \<le> H" "H \<le> G / 5000" using G0 by (simp_all add: H_def)
  have Hw: "H = (1 / 1000000) / \<bar>w\<bar>" by (simp add: H_def G_def)
  have hw: "h / \<bar>w\<bar> \<le> H"
    unfolding Hw using h(2) w0 by (intro divide_right_mono) simp_all
  have hH: "h \<le> H"
  proof -
    have "h * \<bar>w\<bar> \<le> h * pow2 900" using assms(3) h(1) by (intro mult_left_mono) simp_all
    also have "\<dots> \<le> 1 / 1000000" by (simp add: h_def pow2_def)
    finally show ?thesis unfolding Hw using w0 by (simp add: field_simps)
  qed
  have big: "(10 ^ 18 :: rat) \<le> pow2 1023" by (simp add: pow2_def)
  have small: "(10 ^ 18 :: rat) * e \<le> 112" by (simp add: e_def pow2_def)
  \<comment> \<open>the future value\<close>
  define a where "a = fmul p (Fin w)"
  have pw: "\<bar>val p * w\<bar> \<le> 10 ^ 18 - 1000" using assms(5) by (simp add: abs_mult)
  then have "\<bar>val p * val (Fin w)\<bar> \<le> pow2 1023" using big by (simp add: fw(2))
  from fmul_finite[OF assms(4) fw(1) this]
  have a: "finite_number a" "\<bar>val a - val p * w\<bar> \<le> \<bar>val p * w\<bar> * e + h"
    by (simp_all add: a_def fw(2) h_def e_def)
  have "\<bar>val p * w\<bar> * e \<le> 10 ^ 18 * e" using pw e(1) by (intro mult_right_mono) simp_all
  then have "\<bar>val p * w\<bar> * e \<le> 112" using small by linarith
  then have amag: "\<bar>val a\<bar> \<le> 10 ^ 18 - 1" using a(2) pw h by linarith
  have fv: "futureValueWithoutInflation approx p y r = toFixed2 a"
    by (simp add: futureValueWithoutInflation_def pw1 a_def)
  \<comment> \<open>the string read back\<close>
  obtain f where f: "StringToNumber (toFixed2 a) = Some f" "finite_number f"
    "\<bar>val f - val a\<bar> \<le> 1 / 200 + (\<bar>val a\<bar> + 1 / 200) * e + h"
    using StringToNumber_toFixed2[OF a(1) amag] unfolding h_def e_def by blast
  have "(\<bar>val a\<bar> + 1 / 200) * e \<le> 10 ^ 18 * e"
    using amag e(1) by (intro mult_right_mono) simp_all
  then have "(\<bar>val a\<bar> + 1 / 200) * e \<le> 112" using small by linarith
  then have fmag: "\<bar>val f\<bar> \<le> 10 ^ 18 + 200" using f(3) amag h by linarith
  \<comment> \<open>the present value\<close>
  define c where "c = fdiv f (Fin w)"
  have "\<bar>val f / w\<bar> = \<bar>val f\<bar> / \<bar>w\<bar>" by (simp add: abs_divide)
  also have "\<dots> \<le> (10 ^ 18 + 200) / \<bar>w\<bar>" using fmag w0 by (intro divide_right_mono) simp_all
  also have "\<dots> \<le> (10 ^ 18 + 200) / pow2 (- 900)"
    using assms(2) pow2_pos[of "- 900"] by (intro divide_left_mono mult_pos_pos w0) simp_all
  also have "\<dots> \<le> pow2 1023" by (simp add: pow2_def)
  finally have "\<bar>val f / val (Fin w)\<bar> \<le> pow2 1023" by (simp add: fw(2))
  from fdiv_finite[OF f(2) fw(1,3) this]
  have c: "finite_number c" "\<bar>val c - val f / w\<bar> \<le> \<bar>val f / w\<bar> * e + h"
    by (simp_all add: c_def fw(2) h_def e_def)
  have res: "presentValue_of_futureValue approx p y r = Some (toFixed2 c)"
    by (simp add: presentValue_of_futureValue_def fv f(1) presentValueWithoutInflation_def
        pw1 c_def)
  \<comment> \<open>the errors, scaled by the growth factor\<close>
  have d1: "\<bar>val a / w - val p\<bar> \<le> \<bar>val p\<bar> * e + H"
  proof -
    have "val a / w - val p = (val a - val p * w) / w" using wne by (simp add: field_simps)
    then have "\<bar>val a / w - val p\<bar> = \<bar>val a - val p * w\<bar> / \<bar>w\<bar>" by (simp add: abs_divide)
    also have "\<dots> \<le> (\<bar>val p * w\<bar> * e + h) / \<bar>w\<bar>" using a(2) w0 by (simp add: divide_right_mono)
    also have "\<dots> = \<bar>val p\<bar> * e + h / \<bar>w\<bar>" using w0 by (simp add: abs_mult field_simps)
    also have "\<dots> \<le> \<bar>val p\<bar> * e + H" using hw by simp
    finally show ?thesis .
  qed
  have d2: "\<bar>val f / w - val a / w\<bar> \<le> G + (\<bar>val a / w\<bar> + G) * e + H"
  proof -
    have "val f / w - val a / w = (val f - val a) / w" by (simp add: diff_divide_distrib)
    then have "\<bar>val f / w - val a / w\<bar> = \<bar>val f - val a\<bar> / \<bar>w\<bar>" by (simp add: abs_divide)
    also have "\<dots> \<le> (1 / 200 + (\<bar>val a\<bar> + 1 / 200) * e + h) / \<bar>w\<bar>"
      using f(3) w0 by (simp add: divide_right_mono)
    also have "\<dots> = G + (\<bar>val a\<bar> / \<bar>w\<bar> + G) * e + h / \<bar>w\<bar>"
      by (simp add: G_def add_divide_distrib algebra_simps)
    also have "\<dots> \<le> G + (\<bar>val a\<bar> / \<bar>w\<bar> + G) * e + H" using hw by simp
    finally show ?thesis by (simp add: abs_divide)
  qed
  have d3: "\<bar>val c - val f / w\<bar> \<le> \<bar>val f / w\<bar> * e + H" using c(2) hH by linarith
  have "\<bar>val c - val p\<bar> \<le> 6 / 5 * G + \<bar>val p\<bar> * (8 * e)"
  proof (rule round_trip_arith[OF e(1,2) _ H0 _ _ d1 d2 d3])
    show "\<bar>val a / w\<bar> \<le> \<bar>val p\<bar> + \<bar>val a / w - val p\<bar>" by linarith
    show "\<bar>val f / w\<bar> \<le> \<bar>val a / w\<bar> + \<bar>val f / w - val a / w\<bar>" by linarith
    show "\<bar>val c - val p\<bar> \<le> \<bar>val c - val f / w\<bar> + \<bar>val f / w - val a / w\<bar> + \<bar>val a / w - val p\<bar>"
      by linarith
    show "0 \<le> G" using G0 by simp
  qed simp_all
  then have b: "\<bar>val c - val p\<bar> \<le> 6 / 1000 / \<bar>w\<bar> + \<bar>val p\<bar> / 2 ^ 50"
    unfolding e(3) by (simp add: G_def)
  have "\<bar>val c - val p\<bar> \<le> 6 / 1000 + \<bar>val p\<bar> / 2 ^ 50" if "1 \<le> \<bar>w\<bar>"
  proof -
    have "6 / 1000 / \<bar>w\<bar> \<le> 6 / 1000 / 1" using that by (intro divide_left_mono) simp_all
    then show ?thesis using b by simp
  qed
  then show ?thesis using res c(1) b by blast
qed

theorem present_of_future_round_trip_witness:
  "Math_pow pow_integral (fadd (lit 1) (lit (8 / 100))) (Fin 5)
     = Fin (3308632689580745 / 2251799813685248)
   \<and> pow2 (- 900) \<le> \<bar>3308632689580745 / 2251799813685248\<bar>
   \<and> \<bar>3308632689580745 / 2251799813685248 :: rat\<bar> \<le> pow2 900
   \<and> (1 :: rat) \<le> \<bar>3308632689580745 / 2251799813685248\<bar>
   \<and> finite_number (Fin 10000)
   \<and> \<bar>val (Fin 10000)\<bar> * \<bar>3308632689580745 / 2251799813685248\<bar> \<le> 10 ^ 18 - 1000
   \<and> (\<exists>z. presentValue_of_futureValue pow_integral (Fin 10000) (Fin 5) (lit (8 / 100))
              = Some (toFixed2 z) \<and> finite_number z
            \<and> \<bar>val z - val (Fin 10000)\<bar> \<le> 6 / 1000 + \<bar>val (Fin 10000)\<bar> / 2 ^ 50)
   \<and> Math_pow pow_integral (fadd (lit 1) (Fin (- 1 / 2))) (Fin 1) = Fin (1 / 2)
   \<and> pow2 (- 900) \<le> \<bar>1 / 2\<bar> \<and> \<bar>1 / 2 :: rat\<bar> \<le> pow2 900
   \<and> finite_number (Fin 1) \<and> \<bar>val (Fin 1)\<bar> * \<bar>1 / 2\<bar> \<le> 10 ^ 18 - 1000
   \<and> (\<exists>z. presentValue_of_futureValue pow_integral (Fin 1) (Fin 1) (Fin (- 1 / 2))
              = Some (toFixed2 z) \<and> finite_number z
            \<and> \<bar>val z - val (Fin 1)\<bar> \<le> 6 / 1000 / \<bar>1 / 2\<bar> + \<bar>val (Fin 1)\<bar> / 2 ^ 50)"
proof -
  have g1: "pow2 (- 900) \<le> \<bar>3308632689580745 / 2251799813685248\<bar>"
    "\<bar>3308632689580745 / 2251799813685248 :: rat\<bar> \<le> pow2 900"
    "(1 :: rat) \<le> \<bar>3308632689580745 / 2251799813685248\<bar>"
    by (simp_all add: pow2_def)
  have f1: "finite_number (Fin 10000)" by (simp add: finite_number_def is_NaN_def is_inf_def)
  have m1: "\<bar>val (Fin 10000)\<bar> * \<bar>3308632689580745 / 2251799813685248\<bar> \<le> 10 ^ 18 - 1000"
    by (simp add: val_def)
  have c1: "\<exists>z. presentValue_of_futureValue pow_integral (Fin 10000) (Fin 5) (lit (8 / 100))
              = Some (toFixed2 z) \<and> finite_number z
            \<and> \<bar>val z - val (Fin 10000)\<bar> \<le> 6 / 1000 + \<bar>val (Fin 10000)\<bar> / 2 ^ 50"
    using present_of_future_round_trip[OF growth_at_8_percent g1(1,2) f1 m1] g1(3) by blast
  have g2: "pow2 (- 900) \<le> \<bar>1 / 2\<bar>" "\<bar>1 / 2 :: rat\<bar> \<le> pow2 900"
    by (simp_all add: pow2_def)
  have f2: "finite_number (Fin 1)" by (simp add: finite_number_def is_NaN_def is_inf_def)
  have m2: "\<bar>val (Fin 1)\<bar> * \<bar>1 / 2\<bar> \<le> 10 ^ 18 - 1000" by (simp add: val_def)
  have c2: "\<exists>z. presentValue_of_futureValue pow_integral (Fin 1) (Fin 1) (Fin (- 1 / 2))
              = Some (toFixed2 z) \<and> finite_number z
            \<and> \<bar>val z - val (Fin 1)\<bar> \<le> 6 / 1000 / \<bar>1 / 2\<bar> + \<bar>val (Fin 1)\<bar> / 2 ^ 50"
    using present_of_future_round_trip[OF half_to_the_first g2 f2 m2] by blast
  show ?thesis
    using growth_at_8_percent g1 f1 m1 c1 half_to_the_first g2 f2 m2 c2 by blast
qed

text \<open>
  With a growth factor below one the claim fails: at \<open>r = -0.5\<close> over ten years the
  future value of \<open>1\<close> is printed as \<open>0.00\<close>, and its present value is \<open>0.00\<close>.
\<close>

theorem round_trip_counterexample:
  "flt (Fin (- 1)) (Fin (- 1 / 2))
   \<and> presentValue_of_futureValue pow_integral (Fin 1) (Fin 10) (Fin (- 1 / 2)) = Some ''0.00''
   \<and> StringToNumber ''0.00'' = Some (Fin 0)"
proof (intro conjI)
  show "flt (Fin (- 1)) (Fin (- 1 / 2))" by (simp add: flt_def is_NaN_def val_def)
  have r: "round64 (1 / 1024) = Fin (1 / 1024)" using round64_pow2[of "- 10"] by (simp add: pow2_def)
  have m: "fmul (Fin 1) (Fin (1 / 1024)) = Fin (1 / 1024)"
    using r by (simp add: fmul_def is_NaN_def is_inf_def is_zero_def val_def)
  have d: "fdiv (Fin 0) (Fin (1 / 1024)) = Fin 0"
    by (simp add: fdiv_def is_NaN_def is_inf_def is_zero_def zero_of_def neg_sign_def)
  show "presentValue_of_futureValue pow_integral (Fin 1) (Fin 10) (Fin (- 1 / 2)) = Some ''0.00''"
    unfolding presentValue_of_futureValue_def futureValueWithoutInflation_def
      presentValueWithoutInflation_def Let_def half_to_the_tenth m toFixed2_small
      StringToNumber_zero
    by (simp add: d toFixed2_zero)
  show "StringToNumber ''0.00'' = Some (Fin 0)" by (rule StringToNumber_zero)
qed

end
